theory Spec2Isabelle
  imports Complex_Main "HOL-Library.Word"
begin

section \<open>Lazy lists of package functional: data model\<close>

text \<open>
  The package keeps three pieces of global state: the counter \<^verbatim>\<open>thunkId\<close> behind
  \<^verbatim>\<open>nextId\<close>, the flag \<^verbatim>\<open>memo\<close> and the map \<^verbatim>\<open>memoTable\<close> from thunk ids to
  \<^verbatim>\<open>*Pair\<close>. They are the fields of the record \<open>st\<close>, threaded through every function.

  A \<^verbatim>\<open>Thunk\<close> struct and a \<^verbatim>\<open>Pair\<close> struct are never written after they are built, so a
  pointer to one is modelled by the struct it points to; a \<^verbatim>\<open>*Pair\<close> additionally
  carries the address it was allocated at (field \<open>addr\<close>, taken from the allocation
  counter \<open>nextPair\<close>), so that two pair pointers are equal in the model exactly when
  they are the same object. The nil pointers are \<open>NilThunk\<close> and \<open>None\<close>.

  A \<^verbatim>\<open>thunkFunc\<close> is a Go closure; the datatype \<open>thunkFunc\<close> has one constructor per
  closure literal of functional.go, holding the variables the literal captures. The
  variables a closure assigns to after capture (\<^verbatim>\<open>thunk\<close> and \<^verbatim>\<open>n\<close> in \<^verbatim>\<open>Drop\<close>, and a
  package-level variable such as \<^verbatim>\<open>fibo\<close> that is assigned after the closure reading it
  was built) live in the stores \<open>tvars\<close> and \<open>uvars\<close>, and the closure holds their
  addresses.

  \<^verbatim>\<open>uint\<close> and \<^verbatim>\<open>int\<close> are taken 64 bits wide; \<^verbatim>\<open>thunkId\<close> is a \<^verbatim>\<open>uint64\<close>, a natural
  number incremented modulo \<open>2 ^ 64\<close>.
\<close>

type_synonym uint = "64 word"

datatype ikind = KInt | KInt8 | KInt16 | KInt32 | KInt64
datatype ukind = KUint | KUint8 | KUint16 | KUint32 | KUint64 | KUintptr
datatype fkind = KFloat32 | KFloat64

text \<open>
  The functions handed to \<^verbatim>\<open>MapN\<close>: a caller's function, named by its index in an
  environment \<open>fe\<close> that every evaluating function takes as its first argument, or the
  literal of \<^verbatim>\<open>ZipN\<close>, which calls \<^verbatim>\<open>SliceToList\<close>.
\<close>

datatype fn = UserFn nat | SliceToListFn

text \<open>
  The \<^verbatim>\<open>func() *Thunk\<close> literals handed to \<^verbatim>\<open>DelayedLink\<close> in the package's tests:
  \<^verbatim>\<open>func() *Thunk { return integersFromN(n + 1) }\<close> with its captured \<^verbatim>\<open>n\<close>, and the
  literal of \<^verbatim>\<open>TestFibo\<close>, \<^verbatim>\<open>func() *Thunk { return MapN(sum, fibo, fibo.Tail()) }\<close>, with
  the index of the summing function and the address of the variable \<^verbatim>\<open>fibo\<close>.
\<close>

datatype tailFunc = IntegersFromN int | FiboTail nat nat

text \<open>
  The element types of the slices: \<^verbatim>\<open>[]I\<close>, \<^verbatim>\<open>[]int\<close> and the other integer types,
  \<^verbatim>\<open>[]float32\<close>, \<^verbatim>\<open>[]float64\<close>, \<^verbatim>\<open>[]string\<close> and \<^verbatim>\<open>[]*Thunk\<close>. Two slices have the same
  dynamic type when their element types are the same.
\<close>

datatype etype = IfaceT | IntT ikind | UintT ukind | FloatT fkind | StringT | ThunkT

text \<open>
  Values of type \<^verbatim>\<open>I\<close>, the type \<open>elem\<close> of the elements (\<^verbatim>\<open>interface{}\<close>): the nil interface, integers of the signed and
  unsigned kinds, floating-point numbers of the two kinds (a finite one as the rational
  it denotes, the NaN, and the infinity of either sign, \<open>True\<close> for \<open>+Inf\<close>), strings,
  slices with their element type and their elements, and \<^verbatim>\<open>*Thunk\<close>.
\<close>

datatype elem =
    VNil
  | VInt ikind int
  | VUint ukind nat
  | VFloat fkind rat
  | VNaN fkind
  | VInf fkind bool
  | VStr string
  | VSlice etype "elem list"
  | VThunk thunk
and thunk =
    NilThunk
  | Thunk nat thunkFunc
and thunkFunc =
    EmptyF
  | LinkF elem thunk
  | DelayedLinkF elem tailFunc
  | AppendF thunk thunk
  | TakeF thunk uint
  | DropF nat nat
  | MapNF fn "thunk list"
  | FlattenF thunk

datatype pair = MkPair (addr: nat) (head: elem) (tail: thunk)

record st =
  thunkId :: nat
  memo :: bool
  memoTable :: "nat \<Rightarrow> pair option option"
  nextPair :: nat
  tvars :: "thunk list"
  uvars :: "uint list"
  evals :: "nat list"

text \<open>
  \<open>evals\<close> is an observer, not a variable of the package: \<open>force\<close> pushes the id of a
  thunk on it each time it calls the thunk's function (lines 77 and 83), which is the
  side-effecting counter the specification speaks of. No function reads it.
\<close>

datatype error =
    NilDeref
  | IndexOutOfList
  | TypeAssertion
  | ReflectValueError
  | Uncomparable

text \<open>
  A call that may run forever takes fuel. \<open>None\<close>: the fuel ran out before the call
  returned; \<open>Some (Inl e)\<close>: the call panicked; \<open>Some (Inr (v, s))\<close>: it returned \<open>v\<close>
  and left the state \<open>s\<close>.
\<close>

type_synonym 'a res = "(error + 'a \<times> st) option"

definition ret :: "'a \<Rightarrow> st \<Rightarrow> 'a res" where
  "ret v s = Some (Inr (v, s))"

definition panic :: "error \<Rightarrow> 'a res" where
  "panic e = Some (Inl e)"

definition bnd :: "'a res \<Rightarrow> ('a \<Rightarrow> st \<Rightarrow> 'b res) \<Rightarrow> 'b res" where
  "bnd m k = (case m of None \<Rightarrow> None
              | Some (Inl e) \<Rightarrow> Some (Inl e)
              | Some (Inr (v, s)) \<Rightarrow> k v s)"

type_synonym fenv = "nat \<Rightarrow> elem list \<Rightarrow> error + elem"

text \<open>The value an \<^verbatim>\<open>int\<close> holds after an addition: two's complement, 64 bits.\<close>

definition wrap64 :: "int \<Rightarrow> int" where
  "wrap64 x = (x + 2 ^ 63) mod 2 ^ 64 - 2 ^ 63"

section \<open>Constructors\<close>

definition nextId :: "st \<Rightarrow> nat \<times> st" where
  "nextId s = (let i = (thunkId s + 1) mod 2 ^ 64 in (i, s\<lparr>thunkId := i\<rparr>))"

text \<open>\<^verbatim>\<open>Empty\<close> is built by the first \<^verbatim>\<open>nextId()\<close> of the process, so its id is 1.\<close>

definition Empty :: thunk where
  "Empty = Thunk 1 EmptyF"

definition init_st :: st where
  "init_st = \<lparr>thunkId = 1, memo = True, memoTable = (\<lambda>_. None), nextPair = 0,
              tvars = [], uvars = [], evals = []\<rparr>"

definition StartMemo :: "st \<Rightarrow> st" where
  "StartMemo s = s\<lparr>memo := True\<rparr>"

definition StopMemo :: "st \<Rightarrow> st" where
  "StopMemo s = s\<lparr>memo := False\<rparr>"

definition ResetMemo :: "st \<Rightarrow> st" where
  "ResetMemo s = s\<lparr>memoTable := (\<lambda>_. None)\<rparr>"

definition newPair :: "elem \<Rightarrow> thunk \<Rightarrow> st \<Rightarrow> (pair option) res" where
  "newPair h t s = ret (Some (MkPair (nextPair s) h t)) (s\<lparr>nextPair := nextPair s + 1\<rparr>)"

definition Link :: "elem \<Rightarrow> thunk \<Rightarrow> st \<Rightarrow> thunk \<times> st" where
  "Link h t s = (let (i, s') = nextId s in (Thunk i (LinkF h t), s'))"

definition DelayedLink :: "elem \<Rightarrow> tailFunc \<Rightarrow> st \<Rightarrow> thunk \<times> st" where
  "DelayedLink h tf s = (let (i, s') = nextId s in (Thunk i (DelayedLinkF h tf), s'))"

fun List :: "elem list \<Rightarrow> st \<Rightarrow> thunk \<times> st" where
  "List [] s = (Empty, s)"
| "List (x # xs) s = (let (t, s') = List xs s in Link x t s')"

definition L :: "elem list \<Rightarrow> st \<Rightarrow> thunk \<times> st" where
  "L items s = List items s"

text \<open>The loop of \<^verbatim>\<open>SliceToList\<close> runs from the last index down; \<open>ys\<close> is the slice reversed.\<close>

fun SliceToList_loop :: "elem list \<Rightarrow> thunk \<Rightarrow> st \<Rightarrow> thunk \<times> st" where
  "SliceToList_loop [] r s = (r, s)"
| "SliceToList_loop (y # ys) r s = (let (r', s') = Link y r s in SliceToList_loop ys r' s')"

definition SliceToList :: "elem \<Rightarrow> st \<Rightarrow> thunk \<times> st" where
  "SliceToList items s =
     (case items of VSlice ty xs \<Rightarrow> SliceToList_loop (rev xs) Empty s | _ \<Rightarrow> (NilThunk, s))"

definition Append :: "thunk \<Rightarrow> thunk \<Rightarrow> st \<Rightarrow> thunk \<times> st" where
  "Append thunk other s = (let (i, s') = nextId s in (Thunk i (AppendF thunk other), s'))"

definition Take :: "thunk \<Rightarrow> uint \<Rightarrow> st \<Rightarrow> thunk \<times> st" where
  "Take thunk n s = (let (i, s') = nextId s in (Thunk i (TakeF thunk n), s'))"

text \<open>
  \<^verbatim>\<open>Drop\<close>'s closure assigns to its parameters \<^verbatim>\<open>thunk\<close> and \<^verbatim>\<open>n\<close>: they are allocated in
  the stores and the closure holds their addresses.
\<close>

definition Drop :: "thunk \<Rightarrow> uint \<Rightarrow> st \<Rightarrow> thunk \<times> st" where
  "Drop thunk n s =
     (let tv = length (tvars s); uv = length (uvars s);
          s1 = s\<lparr>tvars := tvars s @ [thunk], uvars := uvars s @ [n]\<rparr>;
          (i, s2) = nextId s1
      in (Thunk i (DropF tv uv), s2))"

definition MapN :: "fn \<Rightarrow> thunk list \<Rightarrow> st \<Rightarrow> thunk \<times> st" where
  "MapN f thunks s = (let (i, s') = nextId s in (Thunk i (MapNF f thunks), s'))"

definition ZipN :: "thunk list \<Rightarrow> st \<Rightarrow> thunk \<times> st" where
  "ZipN thunks s = MapN SliceToListFn thunks s"

definition Flatten :: "thunk \<Rightarrow> st \<Rightarrow> thunk \<times> st" where
  "Flatten thunk s = (let (i, s') = nextId s in (Thunk i (FlattenF thunk), s'))"

text \<open>Reading a captured variable. Every address a closure holds was allocated.\<close>

definition getT :: "st \<Rightarrow> nat \<Rightarrow> thunk" where
  "getT s a = (if a < length (tvars s) then tvars s ! a else NilThunk)"

definition getU :: "st \<Rightarrow> nat \<Rightarrow> uint" where
  "getU s a = (if a < length (uvars s) then uvars s ! a else 0)"

definition applyFn :: "fenv \<Rightarrow> fn \<Rightarrow> elem list \<Rightarrow> st \<Rightarrow> elem res" where
  "applyFn fe f heads s =
     (case f of
        UserFn k \<Rightarrow> (case fe k heads of Inl e \<Rightarrow> panic e | Inr v \<Rightarrow> ret v s)
      | SliceToListFn \<Rightarrow> (let (t, s') = SliceToList (VSlice IfaceT heads) s in ret (VThunk t) s'))"

section \<open>force and the closures\<close>

text \<open>
  The \<^verbatim>\<open>for k := 0; k < l; k++\<close> loop shared by \<^verbatim>\<open>MapN\<close> and \<^verbatim>\<open>ReduceN\<close>: forces the
  thunks from left to right and stops at the first nil pair.
\<close>

fun forceEach :: "(thunk \<Rightarrow> st \<Rightarrow> (pair option) res) \<Rightarrow> thunk list \<Rightarrow> elem list \<Rightarrow> thunk list
    \<Rightarrow> st \<Rightarrow> ((elem list \<times> thunk list) option) res" where
  "forceEach frc [] heads tails s = ret (Some (heads, tails)) s"
| "forceEach frc (t # ts) heads tails s =
     bnd (frc t s) (\<lambda>p s'.
       case p of None \<Rightarrow> ret None s'
       | Some pr \<Rightarrow> forceEach frc ts (heads @ [head pr]) (tails @ [tail pr]) s')"

fun force :: "fenv \<Rightarrow> nat \<Rightarrow> thunk \<Rightarrow> elem \<Rightarrow> st \<Rightarrow> (pair option) res"
and call :: "fenv \<Rightarrow> nat \<Rightarrow> thunkFunc \<Rightarrow> elem \<Rightarrow> st \<Rightarrow> (pair option) res" where
  "force fe 0 t ctx s = None"
| "force fe (Suc n) NilThunk ctx s = ret None s"
| "force fe (Suc n) (Thunk i f) ctx s =
     (if memo s then
        (case memoTable s i of
           Some v \<Rightarrow> ret v s
         | None \<Rightarrow>
             bnd (call fe n f ctx (s\<lparr>evals := i # evals s\<rparr>)) (\<lambda>r s'.
               ret r (s'\<lparr>memoTable := (memoTable s')(i := Some r)\<rparr>)))
      else call fe n f ctx (s\<lparr>evals := i # evals s\<rparr>))"
| "call fe 0 f ctx s = None"
| "call fe (Suc n) f ctx s =
     (case f of
        EmptyF \<Rightarrow> ret None s
      | LinkF h t \<Rightarrow> newPair h t s
      | DelayedLinkF h tf \<Rightarrow>
          (case tf of
             IntegersFromN k \<Rightarrow>
               (let k' = wrap64 (k + 1);
                    (t, s1) = DelayedLink (VInt KInt k') (IntegersFromN k') s
                in newPair h t s1)
           | FiboTail g v \<Rightarrow>
               bnd (force fe n (getT s v) VNil s) (\<lambda>p s1.
                 case p of None \<Rightarrow> panic NilDeref
                 | Some pr \<Rightarrow>
                     (let (t, s2) = MapN (UserFn g) [getT s v, tail pr] s1
                      in newPair h t s2)))
      | AppendF thunk other \<Rightarrow>
          bnd (force fe n thunk VNil s) (\<lambda>p s1.
            case p of
              Some pr \<Rightarrow> (let (t, s2) = Append (tail pr) other s1 in newPair (head pr) t s2)
            | None \<Rightarrow>
                bnd (force fe n other VNil s1) (\<lambda>q s2.
                  case q of
                    Some qr \<Rightarrow> (let (t, s3) = Append (tail qr) Empty s2 in newPair (head qr) t s3)
                  | None \<Rightarrow> ret None s2))
      | TakeF thunk k \<Rightarrow>
          (if k > 0 then
             bnd (force fe n thunk VNil s) (\<lambda>p s1.
               case p of
                 Some pr \<Rightarrow> (let (t, s2) = Take (tail pr) (k - 1) s1 in newPair (head pr) t s2)
               | None \<Rightarrow> ret None s1)
           else ret None s)
      | DropF tv uv \<Rightarrow>
          bnd (force fe n (getT s tv) VNil s) (\<lambda>p s1.
            case p of
              Some pr \<Rightarrow>
                (if getU s1 uv > 0 then
                   call fe n (DropF tv uv) VNil
                     (s1\<lparr>uvars := (uvars s1)[uv := getU s1 uv - 1],
                         tvars := (tvars s1)[tv := tail pr]\<rparr>)
                 else ret (Some pr) s1)
            | None \<Rightarrow> ret None s1)
      | MapNF g thunks \<Rightarrow>
          bnd (forceEach (\<lambda>t s'. force fe n t VNil s') thunks [] [] s) (\<lambda>r s1.
            case r of
              None \<Rightarrow> ret None s1
            | Some (heads, tails) \<Rightarrow>
                bnd (applyFn fe g heads s1) (\<lambda>v s2.
                  let (t, s3) = MapN g tails s2 in newPair v t s3))
      | FlattenF thunk \<Rightarrow>
          bnd (force fe n thunk VNil s) (\<lambda>p s1.
            case p of
              Some pr \<Rightarrow>
                (case head pr of
                   VThunk h \<Rightarrow>
                     bnd (force fe n h VNil s1) (\<lambda>p2 s2.
                       case p2 of
                         None \<Rightarrow> panic NilDeref
                       | Some pr2 \<Rightarrow>
                           (let (fl, s3) = Flatten (tail pr) s2;
                                (t, s4) = Append (tail pr2) fl s3
                            in newPair (head pr2) t s4))
                 | _ \<Rightarrow> panic TypeAssertion)
            | None \<Rightarrow> ret None s1))"

section \<open>Operations that force\<close>

definition Head :: "fenv \<Rightarrow> nat \<Rightarrow> thunk \<Rightarrow> st \<Rightarrow> elem res" where
  "Head fe n thunk s =
     bnd (force fe n thunk VNil s) (\<lambda>p s'.
       case p of None \<Rightarrow> panic NilDeref | Some pr \<Rightarrow> ret (head pr) s')"

definition Tail :: "fenv \<Rightarrow> nat \<Rightarrow> thunk \<Rightarrow> st \<Rightarrow> thunk res" where
  "Tail fe n thunk s =
     bnd (force fe n thunk VNil s) (\<lambda>p s'.
       case p of None \<Rightarrow> panic NilDeref | Some pr \<Rightarrow> ret (tail pr) s')"

fun ToSlice :: "fenv \<Rightarrow> nat \<Rightarrow> thunk \<Rightarrow> st \<Rightarrow> (elem list) res" where
  "ToSlice fe 0 thunk s = None"
| "ToSlice fe (Suc n) thunk s =
     bnd (force fe n thunk VNil s) (\<lambda>p s1.
       case p of
         None \<Rightarrow> ret [] s1
       | Some pr \<Rightarrow> bnd (ToSlice fe n (tail pr) s1) (\<lambda>rest s2. ret (head pr # rest) s2))"

text \<open>
  \<^verbatim>\<open>a != b\<close> on two interface values, as \<^verbatim>\<open>Equals\<close> uses it on heads: values of
  different dynamic types are unequal; two slices of the same element type have the
  same, uncomparable, dynamic type, and comparing them panics; a NaN is unequal to
  every value, itself included.
\<close>

fun iface_neq :: "elem \<Rightarrow> elem \<Rightarrow> error + bool" where
  "iface_neq (VSlice ta xs) (VSlice tb ys) = (if ta = tb then Inl Uncomparable else Inr True)"
| "iface_neq (VNaN k) b = Inr True"
| "iface_neq a (VNaN k) = Inr True"
| "iface_neq a b = Inr (a \<noteq> b)"

fun Equals :: "fenv \<Rightarrow> nat \<Rightarrow> thunk \<Rightarrow> thunk \<Rightarrow> st \<Rightarrow> bool res" where
  "Equals fe 0 thunk other s = None"
| "Equals fe (Suc n) thunk other s =
     bnd (force fe n thunk VNil s) (\<lambda>pair s1.
     bnd (force fe n other VNil s1) (\<lambda>otherPair s2.
       case pair of
         None \<Rightarrow> (case otherPair of Some q \<Rightarrow> ret False s2 | None \<Rightarrow> ret True s2)
       | Some p \<Rightarrow>
           (case head p of
              VThunk h \<Rightarrow>
                (case otherPair of
                   None \<Rightarrow> panic NilDeref
                 | Some q \<Rightarrow>
                     (case head q of
                        VThunk oh \<Rightarrow>
                          bnd (Equals fe n h oh s2) (\<lambda>b s3.
                            if \<not> b then ret False s3
                            else Equals fe n (tail p) (tail q) s3)
                      | _ \<Rightarrow> ret False s2))
            | hv \<Rightarrow>
                (case otherPair of
                   None \<Rightarrow> panic NilDeref
                 | Some q \<Rightarrow>
                     (case iface_neq hv (head q) of
                        Inl e \<Rightarrow> panic e
                      | Inr ne \<Rightarrow>
                          if ne then ret False s2
                          else Equals fe n (tail p) (tail q) s2)))))"

text \<open>
  \<^verbatim>\<open>Length\<close> counts in an \<^verbatim>\<open>int\<close>: \<open>r\<close> is the counter \<^verbatim>\<open>ret\<close>, a 64-bit word read as a
  signed number by \<open>sint\<close>; \<^verbatim>\<open>ret++\<close> wraps.
\<close>

fun Length_loop :: "fenv \<Rightarrow> nat \<Rightarrow> thunk \<Rightarrow> 64 word \<Rightarrow> st \<Rightarrow> (64 word) res" where
  "Length_loop fe 0 thunk r s = None"
| "Length_loop fe (Suc n) thunk r s =
     bnd (force fe n thunk VNil s) (\<lambda>p s1.
       case p of
         None \<Rightarrow> ret r s1
       | Some pr \<Rightarrow> Length_loop fe n (tail pr) (r + 1) s1)"

definition Length :: "fenv \<Rightarrow> nat \<Rightarrow> thunk \<Rightarrow> st \<Rightarrow> (64 word) res" where
  "Length fe n thunk s = Length_loop fe n thunk 0 s"

text \<open>
  The loop of \<^verbatim>\<open>At\<close>, \<^verbatim>\<open>for i := uint(0); i <= n; i++\<close>. \<open>pair\<close> is the variable
  \<^verbatim>\<open>pair\<close>, nil before the first iteration; \<open>i + 1\<close> wraps. The width of \<^verbatim>\<open>uint\<close>
  depends on the platform and the Go release (32 bits everywhere in the release the
  README names, 64 bits on today's 64-bit platforms); \<open>At\<close> stores no \<^verbatim>\<open>uint\<close>, so it
  is modelled for every width \<open>'w\<close>.
\<close>

fun At_loop :: "fenv \<Rightarrow> nat \<Rightarrow> 'w::len word \<Rightarrow> 'w word \<Rightarrow> thunk \<Rightarrow> pair option \<Rightarrow> st
    \<Rightarrow> elem res" where
  "At_loop fe 0 i n thunk pair s = None"
| "At_loop fe (Suc k) i n thunk pair s =
     (if i \<le> n then
        bnd (force fe k thunk VNil s) (\<lambda>p s1.
          case p of
            None \<Rightarrow> panic IndexOutOfList
          | Some pr \<Rightarrow> At_loop fe k (i + 1) n (tail pr) p s1)
      else (case pair of None \<Rightarrow> panic NilDeref | Some pr \<Rightarrow> ret (head pr) s))"

definition At :: "fenv \<Rightarrow> nat \<Rightarrow> thunk \<Rightarrow> 'w::len word \<Rightarrow> st \<Rightarrow> elem res" where
  "At fe k thunk n s = At_loop fe k 0 n thunk None s"

text \<open>
  \<^verbatim>\<open>ReduceN\<close> is not lazy, so its function argument is never stored: it is a HOL
  function, which may panic.
\<close>

fun ReduceN :: "fenv \<Rightarrow> nat \<Rightarrow> (elem \<Rightarrow> elem list \<Rightarrow> error + elem) \<Rightarrow> elem \<Rightarrow> thunk list
    \<Rightarrow> st \<Rightarrow> elem res" where
  "ReduceN fe 0 f acc thunks s = None"
| "ReduceN fe (Suc n) f acc thunks s =
     bnd (forceEach (\<lambda>t s'. force fe n t VNil s') thunks [] [] s) (\<lambda>r s1.
       case r of
         None \<Rightarrow> ret acc s1
       | Some (heads, tails) \<Rightarrow>
           (case f acc heads of
              Inl e \<Rightarrow> panic e
            | Inr acc' \<Rightarrow> ReduceN fe n f acc' tails s1))"

definition Reduce :: "fenv \<Rightarrow> nat \<Rightarrow> (elem \<Rightarrow> elem \<Rightarrow> error + elem) \<Rightarrow> elem \<Rightarrow> thunk
    \<Rightarrow> st \<Rightarrow> elem res" where
  "Reduce fe n f initial thunk s =
     ReduceN fe n (\<lambda>acc xs. case xs of [] \<Rightarrow> Inl IndexOutOfList | x # _ \<Rightarrow> f acc x)
       initial [thunk] s"

subsection \<open>Max and Min\<close>

datatype kind = Invalid | IntK ikind | UintK ukind | FloatK fkind | StringK | SliceK | PtrK

fun Kind :: "elem \<Rightarrow> kind" where
  "Kind VNil = Invalid"
| "Kind (VInt k i) = IntK k"
| "Kind (VUint k u) = UintK k"
| "Kind (VFloat k q) = FloatK k"
| "Kind (VNaN k) = FloatK k"
| "Kind (VInf k p) = FloatK k"
| "Kind (VStr str) = StringK"
| "Kind (VSlice ty xs) = SliceK"
| "Kind (VThunk t) = PtrK"

text \<open>
  The function literal of \<^verbatim>\<open>Max\<close> (\<open>ge = True\<close>, comparing with \<^verbatim>\<open>>=\<close>) and of \<^verbatim>\<open>Min\<close>
  (\<open>ge = False\<close>, comparing with \<^verbatim>\<open><=\<close>); the two differ in nothing else. The
  unsigned case lists \<^verbatim>\<open>Uint, Uint8, Uint16, Uint32\<close> only. The floating-point case
  returns its local \<^verbatim>\<open>acc\<close>, the \<^verbatim>\<open>float64\<close> that \<^verbatim>\<open>accV.Float()\<close> gave. The string case
  calls \<^verbatim>\<open>accV.Float()\<close>, which panics on a value that is not a float. \<open>float_le a b\<close> is
  \<^verbatim>\<open>a <= b\<close> on two floating-point values, false when one is a NaN; \<open>widen\<close> is the
  \<^verbatim>\<open>float64\<close> that \<^verbatim>\<open>Float()\<close> gives.
\<close>

definition cmpw :: "bool \<Rightarrow> 'a::linorder \<Rightarrow> 'a \<Rightarrow> bool" where
  "cmpw ge a b = (if ge then a \<ge> b else a \<le> b)"

fun float_le :: "elem \<Rightarrow> elem \<Rightarrow> bool" where
  "float_le (VFloat k a) (VFloat k' b) = (a \<le> b)"
| "float_le (VFloat k a) (VInf k' q) = q"
| "float_le (VInf k p) (VFloat k' b) = (\<not> p)"
| "float_le (VInf k p) (VInf k' q) = (p \<le> q)"
| "float_le a b = False"

fun widen :: "elem \<Rightarrow> elem" where
  "widen (VFloat k a) = VFloat KFloat64 a"
| "widen (VNaN k) = VNaN KFloat64"
| "widen (VInf k p) = VInf KFloat64 p"
| "widen a = a"

fun pick :: "bool \<Rightarrow> elem \<Rightarrow> elem \<Rightarrow> error + elem" where
  "pick ge acc x =
     (if Kind acc \<noteq> Kind x then Inr VNil
      else (case (acc, x) of
          (VInt k a, VInt k' b) \<Rightarrow> if cmpw ge a b then Inr acc else Inr x
        | (VUint k a, VUint k' b) \<Rightarrow>
            if k \<in> {KUint, KUint8, KUint16, KUint32}
            then (if cmpw ge a b then Inr acc else Inr x)
            else Inr VNil
        | (VFloat k a, VFloat k' b) \<Rightarrow> if cmpw ge a b then Inr (VFloat KFloat64 a) else Inr x
        | (VStr a, VStr b) \<Rightarrow> Inl ReflectValueError
        | _ \<Rightarrow>
            (case Kind acc of
               FloatK k \<Rightarrow>
                 if (if ge then float_le x acc else float_le acc x) then Inr (widen acc)
                 else Inr x
             | _ \<Rightarrow> Inr VNil)))"

definition Max_list :: "fenv \<Rightarrow> nat \<Rightarrow> thunk \<Rightarrow> st \<Rightarrow> elem res" where
  "Max_list fe n thunk s =
     bnd (Head fe n thunk s) (\<lambda>h s1. Reduce fe n (pick True) h thunk s1)"

definition Min_list :: "fenv \<Rightarrow> nat \<Rightarrow> thunk \<Rightarrow> st \<Rightarrow> elem res" where
  "Min_list fe n thunk s =
     bnd (Head fe n thunk s) (\<lambda>h s1. Reduce fe n (pick False) h thunk s1)"

text \<open>What a call returned, without the state it left.\<close>

definition outcome :: "'a res \<Rightarrow> (error + 'a) option" where
  "outcome r = map_option (map_sum id fst) r"

section \<open>The functions and lists of the package's tests\<close>

text \<open>
  The function literal of \<^verbatim>\<open>TestFibo\<close> (and the integer branch of the one of
  \<^verbatim>\<open>TestMapN\<close>): \<^verbatim>\<open>ret := 0; for _, v := range xs { ret += v.(int) }; return ret\<close>.
  The assertion \<^verbatim>\<open>v.(int)\<close> panics on a value whose dynamic type is not \<^verbatim>\<open>int\<close>.
\<close>

fun sum_loop :: "int \<Rightarrow> elem list \<Rightarrow> error + elem" where
  "sum_loop r [] = Inr (VInt KInt r)"
| "sum_loop r (v # vs) =
     (case v of VInt KInt x \<Rightarrow> sum_loop (wrap64 (r + x)) vs | _ \<Rightarrow> Inl TypeAssertion)"

definition sumInts :: "elem list \<Rightarrow> error + elem" where
  "sumInts xs = sum_loop 0 xs"

text \<open>
  \<^verbatim>\<open>totalSum\<close> of \<^verbatim>\<open>TestReduceN\<close>:
  \<^verbatim>\<open>for _, x := range xs { acc = acc.(int) + x.(int) }; return acc\<close>.
\<close>

fun totalSum :: "elem \<Rightarrow> elem list \<Rightarrow> error + elem" where
  "totalSum acc [] = Inr acc"
| "totalSum acc (x # xs) =
     (case acc of
        VInt KInt a \<Rightarrow>
          (case x of VInt KInt b \<Rightarrow> totalSum (VInt KInt (wrap64 (a + b))) xs
           | _ \<Rightarrow> Inl TypeAssertion)
      | _ \<Rightarrow> Inl TypeAssertion)"

text \<open>The environment of caller functions in which every index names \<open>sumInts\<close>.\<close>

definition test_fe :: fenv where
  "test_fe k = sumInts"

text \<open>
  \<^verbatim>\<open>TestFibo\<close>: the variable \<^verbatim>\<open>fibo\<close> is declared (nil) at a fresh address \<open>a\<close>; the
  argument \<^verbatim>\<open>DelayedLink(1, func() ...)\<close> is built, then \<^verbatim>\<open>Link(1, ...)\<close>, and the
  result is assigned to \<^verbatim>\<open>fibo\<close>.
\<close>

definition fibo_build :: "st \<Rightarrow> thunk \<times> st" where
  "fibo_build s =
     (let a = length (tvars s);
          s1 = s\<lparr>tvars := tvars s @ [NilThunk]\<rparr>;
          (d, s2) = DelayedLink (VInt KInt 1) (FiboTail 0 a) s1;
          (f, s3) = Link (VInt KInt 1) d s2
      in (f, s3\<lparr>tvars := (tvars s3)[a := f]\<rparr>))"

text \<open>\<^verbatim>\<open>integersFromN\<close> of \<^verbatim>\<open>TestProg\<close>; \<^verbatim>\<open>prog = integersFromN(1)\<close>.\<close>

definition integersFromN :: "int \<Rightarrow> st \<Rightarrow> thunk \<times> st" where
  "integersFromN n s = DelayedLink (VInt KInt n) (IntegersFromN n) s"

section \<open>Notions used in the statements\<close>

text \<open>
  A relation between the state before and the state after that holds across every
  assignment the package makes: \<^verbatim>\<open>thunkId++\<close>, the allocation of a pair, a call of a
  thunk function by \<open>force\<close>, a store into \<^verbatim>\<open>memoTable\<close>, and the assignments of
  \<^verbatim>\<open>Drop\<close>'s closure to its captured variables; reflexive and transitive.
\<close>

definition steps_ok :: "(st \<Rightarrow> st \<Rightarrow> bool) \<Rightarrow> bool" where
  "steps_ok R \<longleftrightarrow>
     (\<forall>s. R s s) \<and> (\<forall>a b c. R a b \<longrightarrow> R b c \<longrightarrow> R a c)
     \<and> (\<forall>s. R s (s\<lparr>thunkId := (thunkId s + 1) mod 2 ^ 64\<rparr>))
     \<and> (\<forall>s. R s (s\<lparr>nextPair := nextPair s + 1\<rparr>))
     \<and> (\<forall>s i. R s (s\<lparr>evals := i # evals s\<rparr>))
     \<and> (\<forall>s i r. R s (s\<lparr>memoTable := (memoTable s)(i := Some r)\<rparr>))
     \<and> (\<forall>s uv x tv t. R s (s\<lparr>uvars := (uvars s)[uv := x], tvars := (tvars s)[tv := t]\<rparr>))"

text \<open>
  The cell at position \<open>j\<close> of a list, reached by forcing \<open>j + 1\<close> thunks along the
  tails: \<open>Some\<close> of its pair, or \<open>None\<close> when the list ends at or before position \<open>j\<close>
  (it has fewer than \<open>j + 1\<close> elements).
\<close>

fun cell :: "fenv \<Rightarrow> nat \<Rightarrow> thunk \<Rightarrow> nat \<Rightarrow> st \<Rightarrow> (pair option) res" where
  "cell fe 0 thunk j s = None"
| "cell fe (Suc k) thunk j s =
     bnd (force fe k thunk VNil s) (\<lambda>p s1.
       case p of
         None \<Rightarrow> ret None s1
       | Some pr \<Rightarrow> (case j of 0 \<Rightarrow> ret (Some pr) s1 | Suc j' \<Rightarrow> cell fe k (tail pr) j' s1))"

subsection \<open>Finite lists made of \<^verbatim>\<open>Link\<close> cells\<close>

text \<open>
  The finite lists of the statements below are those \<^verbatim>\<open>Link\<close>, \<^verbatim>\<open>List\<close>, \<^verbatim>\<open>L\<close> and
  \<^verbatim>\<open>SliceToList\<close> build: a thunk made by \<^verbatim>\<open>Link\<close> whose tail is such a list again, ended
  by \<^verbatim>\<open>Empty\<close> (or by the nil thunk). \<open>G\<close> is a register of the \<^verbatim>\<open>Link\<close> cells built so
  far, from the id of a cell to its head and tail; it is not part of the program's
  state. \<open>chain G t xs\<close>: the thunk \<open>t\<close> is a list of registered cells with the
  elements \<open>xs\<close>.
\<close>

fun chain :: "(nat \<Rightarrow> (elem \<times> thunk) option) \<Rightarrow> thunk \<Rightarrow> elem list \<Rightarrow> bool" where
  "chain G t [] = (t = Empty \<or> t = NilThunk)"
| "chain G t (x # xs) =
     (case t of
        Thunk i (LinkF y t') \<Rightarrow> y = x \<and> G i = Some (x, t') \<and> chain G t' xs
      | _ \<Rightarrow> False)"

text \<open>
  \<open>inv G B s\<close>: the state \<open>s\<close> fits the register. Every registered cell has an id in
  \<open>2..B\<close>, and \<open>B\<close> is at most the last id handed out; ids not yet handed out are not
  in the memo table; the entry of a registered cell, if there is one, is a pair with
  the cell's head and tail; the entry of \<^verbatim>\<open>Empty\<close>, if there is one, is nil.
\<close>

definition inv :: "(nat \<Rightarrow> (elem \<times> thunk) option) \<Rightarrow> nat \<Rightarrow> st \<Rightarrow> bool" where
  "inv G B s \<longleftrightarrow>
     1 \<le> B \<and> B \<le> thunkId s
     \<and> (\<forall>i. thunkId s < i \<longrightarrow> memoTable s i = None)
     \<and> (memoTable s 1 = None \<or> memoTable s 1 = Some None)
     \<and> (\<forall>i x t. G i = Some (x, t) \<longrightarrow>
           1 < i \<and> i \<le> B
           \<and> (memoTable s i = None \<or> (\<exists>a. memoTable s i = Some (Some (MkPair a x t)))))"

text \<open>
  What forcing a registered cell leaves as it is: the id counter, the flag, the captured
  variables, and the memo entries of every thunk that is not a registered cell or
  \<^verbatim>\<open>Empty\<close>.
\<close>

definition quiet :: "(nat \<Rightarrow> (elem \<times> thunk) option) \<Rightarrow> st \<Rightarrow> st \<Rightarrow> bool" where
  "quiet G s s' \<longleftrightarrow>
     thunkId s' = thunkId s \<and> memo s' = memo s \<and> tvars s' = tvars s \<and> uvars s' = uvars s
     \<and> (\<forall>i. G i = None \<longrightarrow> i \<noteq> 1 \<longrightarrow> memoTable s' i = memoTable s i)"

text \<open>The store \<open>force\<close> makes after a thunk function returned, when \<^verbatim>\<open>memo\<close> was set.\<close>

definition remember :: "bool \<Rightarrow> nat \<Rightarrow> pair option \<Rightarrow> st \<Rightarrow> st" where
  "remember b j r s = (if b then s\<lparr>memoTable := (memoTable s)(j := Some r)\<rparr> else s)"

text \<open>
  The tuples \<^verbatim>\<open>MapN\<close> and \<^verbatim>\<open>ReduceN\<close> hand to their function, for the lists \<open>xss\<close>: the
  heads of all lists, then the heads of all tails, and so on, up to the first step at
  which one of the lists is exhausted.
\<close>

function rows :: "'a list list \<Rightarrow> 'a list list" where
  "rows xss = (if xss = [] \<or> [] \<in> set xss then [] else map hd xss # rows (map tl xss))"
  by pat_completeness auto
termination
proof (relation "measure (\<lambda>xss. length (hd xss))")
  show "wf (measure (\<lambda>xss. length (hd xss)))" by simp
next
  fix xss :: "'a list list"
  assume "\<not> (xss = [] \<or> [] \<in> set xss)"
  then have "hd xss \<noteq> []" "xss \<noteq> []" by (cases xss; auto)+
  then show "(map tl xss, xss) \<in> measure (\<lambda>xss. length (hd xss))"
    by (cases xss) (auto simp: hd_map)
qed

text \<open>A left fold with a function that may panic; it stops at the first panic.\<close>

fun foldE :: "('b \<Rightarrow> 'a \<Rightarrow> error + 'b) \<Rightarrow> 'b \<Rightarrow> 'a list \<Rightarrow> error + 'b" where
  "foldE f acc [] = Inr acc"
| "foldE f acc (r # rs) = (case f acc r of Inl e \<Rightarrow> Inl e | Inr a \<Rightarrow> foldE f a rs)"

text \<open>
  The list \<^verbatim>\<open>L(1, 2, 3)\<close> built first in the initial state, the state it leaves, and the
  register of its three cells.
\<close>

definition list123 :: thunk where
  "list123 = fst (List [VInt KInt 1, VInt KInt 2, VInt KInt 3] init_st)"

definition st123 :: st where
  "st123 = snd (List [VInt KInt 1, VInt KInt 2, VInt KInt 3] init_st)"

definition cells123 :: "nat \<Rightarrow> (elem \<times> thunk) option" where
  "cells123 = (\<lambda>_. None)
     (2 := Some (VInt KInt 3, Empty),
      3 := Some (VInt KInt 2, Thunk 2 (LinkF (VInt KInt 3) Empty)),
      4 := Some (VInt KInt 1, Thunk 3 (LinkF (VInt KInt 2) (Thunk 2 (LinkF (VInt KInt 3) Empty)))))"

text \<open>
  The elements of a list of \<^verbatim>\<open>Link\<close> cells, read off the thunk: the list \<^verbatim>\<open>ZipN\<close> puts
  in a pair (through \<^verbatim>\<open>SliceToList\<close>) is described by its elements.
\<close>

fun elems :: "thunk \<Rightarrow> elem list" where
  "elems (Thunk i (LinkF x t)) = x # elems t"
| "elems t = []"

text \<open>
  \<open>fn_result fe g r v\<close>: \<open>v\<close> is what the function \<open>g\<close> of a \<^verbatim>\<open>MapN\<close> returns on the
  tuple \<open>r\<close>: the value of the caller's function, or for \<^verbatim>\<open>ZipN\<close> a list with the
  elements \<open>r\<close>. \<open>fn_total fe g r\<close>: \<open>g\<close> returns on \<open>r\<close> (a caller's function may panic).
\<close>

definition fn_result :: "fenv \<Rightarrow> fn \<Rightarrow> elem list \<Rightarrow> elem \<Rightarrow> bool" where
  "fn_result fe g r v =
     (case g of
        UserFn u \<Rightarrow> fe u r = Inr v
      | SliceToListFn \<Rightarrow> (case v of VThunk t \<Rightarrow> elems t = r | _ \<Rightarrow> False))"

definition fn_total :: "fenv \<Rightarrow> fn \<Rightarrow> elem list \<Rightarrow> bool" where
  "fn_total fe g r = (case g of UserFn u \<Rightarrow> (case fe u r of Inl e \<Rightarrow> False | Inr v \<Rightarrow> True)
                              | SliceToListFn \<Rightarrow> True)"

text \<open>The list \<^verbatim>\<open>L(4, 5)\<close> built next, after \<^verbatim>\<open>L(1, 2, 3)\<close>, and the cells of both.\<close>

definition list45 :: thunk where
  "list45 = fst (List [VInt KInt 4, VInt KInt 5] st123)"

definition st45 :: st where
  "st45 = snd (List [VInt KInt 4, VInt KInt 5] st123)"

definition cells45 :: "nat \<Rightarrow> (elem \<times> thunk) option" where
  "cells45 = cells123
     (5 := Some (VInt KInt 5, Empty),
      6 := Some (VInt KInt 4, Thunk 5 (LinkF (VInt KInt 5) Empty)))"

text \<open>
  The elements on which \<^verbatim>\<open>Equals\<close> can compare a list with itself. \<^verbatim>\<open>Equals\<close> compares two
  heads with \<^verbatim>\<open>!=\<close>, which panics on two slices, unless the first is a \<^verbatim>\<open>*Thunk\<close>: then it
  compares the two lists with a nested \<^verbatim>\<open>Equals\<close>; and a NaN is unequal to itself. So
  \<open>plain G x\<close>: \<open>x\<close> is not a slice and not a NaN, and if it is a list, it is a finite
  list of registered \<^verbatim>\<open>Link\<close> cells whose elements are plain.
\<close>

fun plain :: "(nat \<Rightarrow> (elem \<times> thunk) option) \<Rightarrow> elem \<Rightarrow> bool"
and plain_list :: "(nat \<Rightarrow> (elem \<times> thunk) option) \<Rightarrow> thunk \<Rightarrow> bool" where
  "plain G (VSlice ty ys) = False"
| "plain G (VNaN k) = False"
| "plain G (VThunk t) = plain_list G t"
| "plain G x = True"
| "plain_list G (Thunk i (LinkF x t)) = (G i = Some (x, t) \<and> plain G x \<and> plain_list G t)"
| "plain_list G t = (t = Empty \<or> t = NilThunk)"

text \<open>
  The steps \<^verbatim>\<open>Equals\<close> takes on the elements \<open>xs\<close>: one for each, and for an element that is
  a list those of the nested call (\<open>weight\<close>).
\<close>

fun weight :: "elem \<Rightarrow> nat"
and weight_list :: "thunk \<Rightarrow> nat" where
  "weight (VThunk t) = weight_list t"
| "weight x = 0"
| "weight_list (Thunk i (LinkF x t)) = Suc (weight x + weight_list t)"
| "weight_list t = 0"

definition cost :: "elem list \<Rightarrow> nat" where
  "cost xs = length xs + sum_list (map weight xs)"

text \<open>
  \<open>frame G J s s'\<close>: from \<open>s\<close> to \<open>s'\<close> the memoization switch and the captured variables are
  unchanged, and so is the table outside the cells of \<open>G\<close>, the ids in \<open>J\<close> and the id of
  \<^verbatim>\<open>Empty\<close>. \<open>unc s i\<close>: the thunk \<open>i\<close> has no entry in the table (it is forced anew).
\<close>

definition frame :: "(nat \<Rightarrow> (elem \<times> thunk) option) \<Rightarrow> nat set \<Rightarrow> st \<Rightarrow> st \<Rightarrow> bool" where
  "frame G J s s' \<longleftrightarrow>
     memo s' = memo s \<and> tvars s' = tvars s \<and> uvars s' = uvars s
     \<and> (\<forall>i. i \<notin> J \<longrightarrow> G i = None \<longrightarrow> i \<noteq> 1 \<longrightarrow> memoTable s' i = memoTable s i)"

definition unc :: "st \<Rightarrow> nat \<Rightarrow> bool" where
  "unc s i \<longleftrightarrow> (memo s \<longrightarrow> memoTable s i = None)"

text \<open>
  \<^verbatim>\<open>List(List(1, 2, 3), 7)\<close>, built after the list \<open>list123\<close> it holds, and its cells.
\<close>

definition nested :: thunk where
  "nested = fst (List [VThunk list123, VInt KInt 7] st123)"

definition st_nested :: st where
  "st_nested = snd (List [VThunk list123, VInt KInt 7] st123)"

definition cells_nested :: "nat \<Rightarrow> (elem \<times> thunk) option" where
  "cells_nested = cells123
     (5 := Some (VInt KInt 7, Empty),
      6 := Some (VThunk list123, Thunk 5 (LinkF (VInt KInt 7) Empty)))"

section \<open>Evaluation rules\<close>

lemma bnd_ret [simp]: "bnd (ret v s) k = k v s"
  by (simp add: bnd_def ret_def)

lemma bnd_panic [simp]: "bnd (panic e) k = panic e"
  by (simp add: bnd_def panic_def)

lemma bnd_None [simp]: "bnd None k = None"
  by (simp add: bnd_def)

lemma bnd_weak_cong: "m = m' \<Longrightarrow> bnd m k = bnd m' k"
  by simp

lemma outcome_simps [simp]:
  "outcome (ret v s) = Some (Inr v)"
  "outcome (panic e) = Some (Inl e)"
  "outcome None = None"
  by (simp_all add: outcome_def ret_def panic_def)

lemma ret_neq [simp]:
  "ret v s \<noteq> None" "ret v s \<noteq> panic e" "panic e \<noteq> None"
  "None \<noteq> ret v s" "panic e \<noteq> ret v s" "None \<noteq> panic e"
  by (simp_all add: ret_def panic_def)

lemma ret_eq [simp]: "ret v s = ret v' s' \<longleftrightarrow> v = v' \<and> s = s'"
  by (simp add: ret_def)

lemma panic_eq [simp]: "(panic e :: 'a res) = panic e' \<longleftrightarrow> e = e'"
  by (simp add: panic_def)

text \<open>
  Unfolding one step of a fuelled function whose fuel is not written with \<open>Suc\<close>: the
  right-hand sides are those of the definitions, with \<open>n - 1\<close> for the remaining fuel.
\<close>

lemma force_pos:
  "0 < n \<Longrightarrow> force fe n t ctx s =
     (case t of
        NilThunk \<Rightarrow> ret None s
      | Thunk i f \<Rightarrow>
          (if memo s then
             (case memoTable s i of
                Some v \<Rightarrow> ret v s
              | None \<Rightarrow>
                  bnd (call fe (n - 1) f ctx (s\<lparr>evals := i # evals s\<rparr>)) (\<lambda>r s'.
                    ret r (s'\<lparr>memoTable := (memoTable s')(i := Some r)\<rparr>)))
           else call fe (n - 1) f ctx (s\<lparr>evals := i # evals s\<rparr>)))"
  using force.simps(2,3)[of fe "n - 1"] by (cases t) simp_all

lemma call_pos:
  "0 < n \<Longrightarrow> call fe n f ctx s =
     (case f of
        EmptyF \<Rightarrow> ret None s
      | LinkF h t \<Rightarrow> newPair h t s
      | DelayedLinkF h tf \<Rightarrow>
          (case tf of
             IntegersFromN k \<Rightarrow>
               (let k' = wrap64 (k + 1);
                    (t, s1) = DelayedLink (VInt KInt k') (IntegersFromN k') s
                in newPair h t s1)
           | FiboTail g v \<Rightarrow>
               bnd (force fe (n - 1) (getT s v) VNil s) (\<lambda>p s1.
                 case p of None \<Rightarrow> panic NilDeref
                 | Some pr \<Rightarrow>
                     (let (t, s2) = MapN (UserFn g) [getT s v, tail pr] s1
                      in newPair h t s2)))
      | AppendF thunk other \<Rightarrow>
          bnd (force fe (n - 1) thunk VNil s) (\<lambda>p s1.
            case p of
              Some pr \<Rightarrow> (let (t, s2) = Append (tail pr) other s1 in newPair (head pr) t s2)
            | None \<Rightarrow>
                bnd (force fe (n - 1) other VNil s1) (\<lambda>q s2.
                  case q of
                    Some qr \<Rightarrow> (let (t, s3) = Append (tail qr) Empty s2 in newPair (head qr) t s3)
                  | None \<Rightarrow> ret None s2))
      | TakeF thunk k \<Rightarrow>
          (if k > 0 then
             bnd (force fe (n - 1) thunk VNil s) (\<lambda>p s1.
               case p of
                 Some pr \<Rightarrow> (let (t, s2) = Take (tail pr) (k - 1) s1 in newPair (head pr) t s2)
               | None \<Rightarrow> ret None s1)
           else ret None s)
      | DropF tv uv \<Rightarrow>
          bnd (force fe (n - 1) (getT s tv) VNil s) (\<lambda>p s1.
            case p of
              Some pr \<Rightarrow>
                (if getU s1 uv > 0 then
                   call fe (n - 1) (DropF tv uv) VNil
                     (s1\<lparr>uvars := (uvars s1)[uv := getU s1 uv - 1],
                         tvars := (tvars s1)[tv := tail pr]\<rparr>)
                 else ret (Some pr) s1)
            | None \<Rightarrow> ret None s1)
      | MapNF g thunks \<Rightarrow>
          bnd (forceEach (\<lambda>t s'. force fe (n - 1) t VNil s') thunks [] [] s) (\<lambda>r s1.
            case r of
              None \<Rightarrow> ret None s1
            | Some (heads, tails) \<Rightarrow>
                bnd (applyFn fe g heads s1) (\<lambda>v s2.
                  let (t, s3) = MapN g tails s2 in newPair v t s3))
      | FlattenF thunk \<Rightarrow>
          bnd (force fe (n - 1) thunk VNil s) (\<lambda>p s1.
            case p of
              Some pr \<Rightarrow>
                (case head pr of
                   VThunk h \<Rightarrow>
                     bnd (force fe (n - 1) h VNil s1) (\<lambda>p2 s2.
                       case p2 of
                         None \<Rightarrow> panic NilDeref
                       | Some pr2 \<Rightarrow>
                           (let (fl, s3) = Flatten (tail pr) s2;
                                (t, s4) = Append (tail pr2) fl s3
                            in newPair (head pr2) t s4))
                 | _ \<Rightarrow> panic TypeAssertion)
            | None \<Rightarrow> ret None s1))"
  using call.simps(2)[of fe "n - 1" f ctx s] by simp

lemma ToSlice_pos:
  "0 < n \<Longrightarrow> ToSlice fe n thunk s =
     bnd (force fe (n - 1) thunk VNil s) (\<lambda>p s1.
       case p of
         None \<Rightarrow> ret [] s1
       | Some pr \<Rightarrow> bnd (ToSlice fe (n - 1) (tail pr) s1) (\<lambda>rest s2. ret (head pr # rest) s2))"
  using ToSlice.simps(2)[of fe "n - 1" thunk s] by simp

lemma Equals_pos:
  "0 < n \<Longrightarrow> Equals fe n thunk other s =
     bnd (force fe (n - 1) thunk VNil s) (\<lambda>pair s1.
     bnd (force fe (n - 1) other VNil s1) (\<lambda>otherPair s2.
       case pair of
         None \<Rightarrow> (case otherPair of Some q \<Rightarrow> ret False s2 | None \<Rightarrow> ret True s2)
       | Some p \<Rightarrow>
           (case head p of
              VThunk h \<Rightarrow>
                (case otherPair of
                   None \<Rightarrow> panic NilDeref
                 | Some q \<Rightarrow>
                     (case head q of
                        VThunk oh \<Rightarrow>
                          bnd (Equals fe (n - 1) h oh s2) (\<lambda>b s3.
                            if \<not> b then ret False s3
                            else Equals fe (n - 1) (tail p) (tail q) s3)
                      | _ \<Rightarrow> ret False s2))
            | hv \<Rightarrow>
                (case otherPair of
                   None \<Rightarrow> panic NilDeref
                 | Some q \<Rightarrow>
                     (case iface_neq hv (head q) of
                        Inl e \<Rightarrow> panic e
                      | Inr ne \<Rightarrow>
                          if ne then ret False s2
                          else Equals fe (n - 1) (tail p) (tail q) s2)))))"
  using Equals.simps(2)[of fe "n - 1" thunk other s] by simp

lemma Length_loop_pos:
  "0 < n \<Longrightarrow> Length_loop fe n thunk r s =
     bnd (force fe (n - 1) thunk VNil s) (\<lambda>p s1.
       case p of
         None \<Rightarrow> ret r s1
       | Some pr \<Rightarrow> Length_loop fe (n - 1) (tail pr) (r + 1) s1)"
  using Length_loop.simps(2)[of fe "n - 1" thunk r s] by simp

lemma At_loop_pos:
  "0 < k \<Longrightarrow> At_loop fe k i n thunk pair s =
     (if i \<le> n then
        bnd (force fe (k - 1) thunk VNil s) (\<lambda>p s1.
          case p of
            None \<Rightarrow> panic IndexOutOfList
          | Some pr \<Rightarrow> At_loop fe (k - 1) (i + 1) n (tail pr) p s1)
      else (case pair of None \<Rightarrow> panic NilDeref | Some pr \<Rightarrow> ret (head pr) s))"
  using At_loop.simps(2)[of fe "k - 1" i n thunk pair s] by simp

lemma ReduceN_pos:
  "0 < n \<Longrightarrow> ReduceN fe n f acc thunks s =
     bnd (forceEach (\<lambda>t s'. force fe (n - 1) t VNil s') thunks [] [] s) (\<lambda>r s1.
       case r of
         None \<Rightarrow> ret acc s1
       | Some (heads, tails) \<Rightarrow>
           (case f acc heads of
              Inl e \<Rightarrow> panic e
            | Inr acc' \<Rightarrow> ReduceN fe (n - 1) f acc' tails s1))"
  using ReduceN.simps(2)[of fe "n - 1" f acc thunks s] by simp

lemmas fuel_pos = force_pos call_pos Equals_pos ToSlice_pos Length_loop_pos At_loop_pos ReduceN_pos

lemmas ctor_defs = nextId_def Link_def DelayedLink_def Append_def Take_def Drop_def MapN_def
  ZipN_def Flatten_def L_def SliceToList_def Empty_def newPair_def getT_def getU_def
  applyFn_def wrap64_def

lemmas run_defs = ctor_defs fuel_pos Head_def Tail_def Length_def At_def
  Reduce_def Max_list_def Min_list_def init_st_def StartMemo_def StopMemo_def ResetMemo_def
  cmpw_def sumInts_def test_fe_def fibo_build_def integersFromN_def Let_def

section \<open>What every returning call preserves\<close>

lemma ret_Some [simp]: "ret v s = Some (Inr (v', s')) \<longleftrightarrow> v = v' \<and> s = s'"
  by (auto simp: ret_def)

lemma panic_Some [simp]: "panic e \<noteq> Some (Inr x)"
  by (simp add: panic_def)

lemma bnd_returns:
  assumes "bnd m k = Some (Inr (v, s'))"
  obtains u s1 where "m = Some (Inr (u, s1))" and "k u s1 = Some (Inr (v, s'))"
  using assms by (cases m) (auto simp: bnd_def split: sum.splits)

lemma steps_okD:
  assumes "steps_ok R"
  shows "R s s" and "R a b \<Longrightarrow> R b c \<Longrightarrow> R a c"
    and "R s (s\<lparr>thunkId := (thunkId s + 1) mod 2 ^ 64\<rparr>)"
    and "R s (s\<lparr>nextPair := nextPair s + 1\<rparr>)"
    and "R s (s\<lparr>evals := i # evals s\<rparr>)"
    and "R s (s\<lparr>uvars := (uvars s)[uv := x], tvars := (tvars s)[tv := t]\<rparr>)"
    and "R s (s\<lparr>memoTable := (memoTable s)(i := Some r)\<rparr>)"
  using assms unfolding steps_ok_def by blast+

lemma nextId_rel: "steps_ok R \<Longrightarrow> nextId s = (i, s') \<Longrightarrow> R s s'"
  using steps_okD(3)[of R s] by (auto simp: nextId_def Let_def)

lemma newPair_rel: "steps_ok R \<Longrightarrow> newPair h t s = Some (Inr (p, s')) \<Longrightarrow> R s s'"
  using steps_okD(4)[of R s] by (auto simp: newPair_def)

lemma ctor_rel:
  assumes "steps_ok R"
  shows "Link h t s = (r, s') \<Longrightarrow> R s s'"
    and "DelayedLink h tf s = (r, s') \<Longrightarrow> R s s'"
    and "Append a b s = (r, s') \<Longrightarrow> R s s'"
    and "Take a k s = (r, s') \<Longrightarrow> R s s'"
    and "MapN g ts s = (r, s') \<Longrightarrow> R s s'"
    and "Flatten a s = (r, s') \<Longrightarrow> R s s'"
  using assms
  by (auto simp: Link_def DelayedLink_def Append_def Take_def MapN_def Flatten_def
      split: prod.splits dest: nextId_rel)

lemma SliceToList_loop_rel:
  "steps_ok R \<Longrightarrow> SliceToList_loop ys r s = (t, s') \<Longrightarrow> R s s'"
proof (induction ys arbitrary: r s)
  case Nil
  then show ?case by (simp add: steps_okD)
next
  case (Cons y ys)
  then show ?case
    by (auto split: prod.splits dest: ctor_rel(1) intro: steps_okD(2))
qed

lemma applyFn_rel:
  "steps_ok R \<Longrightarrow> applyFn fe g hs s = Some (Inr (v, s')) \<Longrightarrow> R s s'"
  by (auto simp: applyFn_def SliceToList_def steps_okD split: fn.splits sum.splits prod.splits
      dest: SliceToList_loop_rel)

lemma forceEach_rel:
  assumes R: "steps_ok R"
    and frc: "\<And>t s p s'. frc t s = Some (Inr (p, s')) \<Longrightarrow> R s s'"
  shows "forceEach frc ts hs tls s = Some (Inr (r, s')) \<Longrightarrow> R s s'"
proof (induction ts arbitrary: hs tls s)
  case Nil
  then show ?case using R by (simp add: steps_okD)
next
  case (Cons t ts)
  from Cons.prems obtain p s1 where a: "frc t s = Some (Inr (p, s1))"
    and b: "(case p of None \<Rightarrow> ret None s1
             | Some pr \<Rightarrow> forceEach frc ts (hs @ [head pr]) (tls @ [tail pr]) s1) = Some (Inr (r, s'))"
    by (auto elim: bnd_returns)
  from a have "R s s1" by (rule frc)
  moreover from b have "R s1 s'"
    using Cons.IH R by (cases p) (auto simp: steps_okD)
  ultimately show ?case using R by (blast intro: steps_okD(2))
qed

lemma force_call_rel:
  assumes R: "steps_ok R"
  shows "(\<forall>t c s p s'. force fe n t c s = Some (Inr (p, s')) \<longrightarrow> R s s')
       \<and> (\<forall>f c s p s'. call fe n f c s = Some (Inr (p, s')) \<longrightarrow> R s s')"
proof (induction n)
  case 0
  then show ?case by simp
next
  case (Suc n)
  note tr = steps_okD(2)[OF R]
  note rf = steps_okD(1)[OF R]
  note np = newPair_rel[OF R]
  note ct = ctor_rel[OF R]
  have frc: "\<And>t c s p s'. force fe n t c s = Some (Inr (p, s')) \<Longrightarrow> R s s'"
    and cl: "\<And>f c s p s'. call fe n f c s = Some (Inr (p, s')) \<Longrightarrow> R s s'"
    using Suc by blast+
  have A: "R s s'" if h: "force fe (Suc n) t c s = Some (Inr (p, s'))" for t c s p s'
  proof (cases t)
    case NilThunk
    with h show ?thesis using R by (simp add: steps_okD)
  next
    case (Thunk i f)
    show ?thesis
    proof (cases "memo s")
      case False
      with h Thunk have "call fe n f c (s\<lparr>evals := i # evals s\<rparr>) = Some (Inr (p, s'))" by simp
      then have "R (s\<lparr>evals := i # evals s\<rparr>) s'" by (rule cl)
      then show ?thesis using steps_okD(5)[OF R] tr by blast
    next
      case True
      show ?thesis
      proof (cases "memoTable s i")
        case (Some v)
        with h Thunk True show ?thesis using R by (simp add: steps_okD)
      next
        case None
        with h Thunk True obtain r s1 where
          a: "call fe n f c (s\<lparr>evals := i # evals s\<rparr>) = Some (Inr (r, s1))"
          and b: "s' = s1\<lparr>memoTable := (memoTable s1)(i := Some r)\<rparr>"
          by (auto elim: bnd_returns)
        from a have "R (s\<lparr>evals := i # evals s\<rparr>) s1" by (rule cl)
        then show ?thesis
          unfolding b using steps_okD(5)[OF R] steps_okD(7)[OF R] tr by blast
      qed
    qed
  qed
  have B: "R s s'" if h: "call fe (Suc n) f c s = Some (Inr (p, s'))" for f c s p s'
  proof (cases f)
    case EmptyF
    with h show ?thesis by (simp add: rf)
  next
    case (LinkF x t)
    with h show ?thesis by (auto dest: np)
  next
    case (DelayedLinkF x tf)
    show ?thesis
    proof (cases tf)
      case (IntegersFromN k)
      with h DelayedLinkF show ?thesis
        by (auto simp: Let_def split: prod.splits dest!: np ct(2); blast intro: tr)
    next
      case (FiboTail g v)
      with h DelayedLinkF show ?thesis
        by (auto simp: Let_def split: prod.splits option.splits elim!: bnd_returns
            dest!: np ct(5) frc; blast intro: tr)
    qed
  next
    case (AppendF a b)
    with h show ?thesis
      by (auto simp: Let_def split: prod.splits option.splits elim!: bnd_returns
          dest!: np ct(3) frc; blast intro: tr)
  next
    case (TakeF a k)
    with h show ?thesis
      by (auto simp: Let_def rf split: prod.splits option.splits if_splits elim!: bnd_returns
          dest!: np ct(4) frc; blast intro: tr)
  next
    case (DropF tv uv)
    with h show ?thesis
      using steps_okD(6)[OF R]
      by (auto simp: Let_def rf split: prod.splits option.splits if_splits elim!: bnd_returns
          dest!: frc cl; blast intro: tr)
  next
    case (MapNF g ts)
    have fe: "\<And>hs tls s r s'. forceEach (\<lambda>t s'. force fe n t VNil s') ts hs tls s = Some (Inr (r, s')) \<Longrightarrow> R s s'"
      by (rule forceEach_rel[OF R]) (rule frc)
    from h MapNF show ?thesis
      by (auto simp: Let_def rf split: prod.splits option.splits elim!: bnd_returns
          dest!: np ct(5) fe applyFn_rel[OF R]; blast intro: tr)
  next
    case (FlattenF a)
    with h show ?thesis
      by (auto simp: Let_def rf split: prod.splits option.splits elem.splits elim!: bnd_returns
          dest!: np ct(3) ct(6) frc; blast intro: tr)
  qed
  from A B show ?case by blast
qed


lemma steps_ok_memo: "steps_ok (\<lambda>s s'. memo s' = memo s)"
  by (simp add: steps_ok_def)


lemma force_keeps_memo:
  "force fe n t c s = Some (Inr (p, s')) \<Longrightarrow> memo s' = memo s"
  using force_call_rel[OF steps_ok_memo, of fe n] by blast



section \<open>At and the cells of a list\<close>

text \<open>
  For every index but the largest \<^verbatim>\<open>uint\<close>, every list, every state and every amount of
  fuel, \<open>At\<close> does what walking to the cell does: it returns the head of the cell at
  position \<open>n\<close>, panics with "Index out of list." when the list has fewer than
  \<open>n + 1\<close> elements, and does not return when the walk does not.
\<close>

lemma force_Some_fuel: "force fe k t c s = Some r \<Longrightarrow> 0 < k"
  by (cases k) auto

lemma At_loop_cell:
  fixes i n :: "'a::len word"
  assumes "i \<le> n" and "n \<noteq> - 1"
  shows "At_loop fe k i n thunk pair0 s =
     bnd (cell fe k thunk (unat n - unat i) s) (\<lambda>p s'.
       case p of None \<Rightarrow> panic IndexOutOfList | Some pr \<Rightarrow> ret (head pr) s')"
  using assms
proof (induction k arbitrary: i thunk pair0 s)
  case 0
  then show ?case by simp
next
  case (Suc k)
  show ?case
  proof (cases "force fe k thunk VNil s")
    case None
    then show ?thesis using Suc.prems by simp
  next
    case (Some r)
    then have k: "0 < k" by (rule force_Some_fuel)
    show ?thesis
    proof (cases r)
      case (Inl e)
      with Some show ?thesis using Suc.prems by (simp add: bnd_def)
    next
      case (Inr vs)
      obtain p s1 where vs: "vs = (p, s1)" by (cases vs)
      with Some Inr have fr: "force fe k thunk VNil s = ret p s1" by (simp add: ret_def)
      show ?thesis
      proof (cases p)
        case None
        with fr Suc.prems show ?thesis by simp
      next
        case (Some pr)
        show ?thesis
        proof (cases "i = n")
          case True
          from \<open>n \<noteq> - 1\<close> have "\<not> n + 1 \<le> n"
            by (simp add: inc_less_eq_self_iff_eq)
          with True fr Some k show ?thesis
            by (cases k) (simp_all)
        next
          case False
          with Suc.prems have lt: "i < n" by simp
          then have le: "i + 1 \<le> n" by (simp add: inc_le)
          from lt have "i \<noteq> - 1" using max_word_max[of n] by auto
          then have "1 + i \<noteq> 0" by (metis add.commute max_word_wrap)
          then have "unat (i + 1) = Suc (unat i)" by (simp add: unatSuc add.commute)
          moreover from lt have "unat i < unat n" by (simp add: word_less_nat_alt)
          ultimately have "unat n - unat i = Suc (unat n - unat (i + 1))" by simp
          with fr Some Suc.IH[OF le \<open>n \<noteq> - 1\<close>] Suc.prems show ?thesis by simp
        qed
      qed
    qed
  qed
qed


lemma At_cell:
  fixes n :: "'w::len word"
  assumes "n \<noteq> - 1"
  shows "At fe k thunk n s =
     bnd (cell fe k thunk (unat n) s) (\<lambda>p s'.
       case p of None \<Rightarrow> panic IndexOutOfList | Some pr \<Rightarrow> ret (head pr) s')"
  unfolding At_def using At_loop_cell[of 0 n fe k thunk None s] assms by simp

lemma force_stream_nomemo:
  assumes "\<not> memo s"
  shows "force fe k (Thunk j (DelayedLinkF h (IntegersFromN m))) c s = None
       \<or> (\<exists>a j' h' m' s1. \<not> memo s1 \<and>
            force fe k (Thunk j (DelayedLinkF h (IntegersFromN m))) c s
              = ret (Some (MkPair a h (Thunk j' (DelayedLinkF h' (IntegersFromN m'))))) s1)"
proof (cases k)
  case 0
  then show ?thesis by simp
next
  case k: (Suc k1)
  show ?thesis
  proof (cases k1)
    case 0
    with k assms show ?thesis by simp
  next
    case (Suc k2)
    with k assms show ?thesis
      by (simp add: DelayedLink_def nextId_def newPair_def Let_def)
  qed
qed

lemma At_loop_max_stream:
  "\<not> memo s \<Longrightarrow>
   At_loop fe k i (- 1) (Thunk j (DelayedLinkF h (IntegersFromN m))) pair0 s = None"
proof (induction k arbitrary: i j h m pair0 s)
  case 0
  then show ?case by simp
next
  case (Suc k)
  from force_stream_nomemo[OF Suc.prems, of fe k j h m VNil]
  show ?case
  proof (elim disjE exE conjE)
    assume "force fe k (Thunk j (DelayedLinkF h (IntegersFromN m))) VNil s = None"
    then show ?thesis by simp
  next
    fix a j' h' m' s1
    assume nm: "\<not> memo s1"
      and fr: "force fe k (Thunk j (DelayedLinkF h (IntegersFromN m))) VNil s
              = ret (Some (MkPair a h (Thunk j' (DelayedLinkF h' (IntegersFromN m'))))) s1"
    from Suc.IH[OF nm] fr show ?thesis by simp
  qed
qed

section \<open>The claims settled by running the code\<close>

text \<open>
  C10. There is an input on which forcing the result of \<^verbatim>\<open>Flatten\<close> crashes: for the
  list of lists \<^verbatim>\<open>L(L(), L(1))\<close>, whose first element is the empty list, forcing
  \<^verbatim>\<open>Flatten\<close>'s thunk forces the empty sub-list, gets the nil pair and dereferences it
  (\<^verbatim>\<open>pair2.head\<close>): a nil-pointer panic, where skipping the empty sub-list would have
  given the pair of \<^verbatim>\<open>1\<close>. Converting the flattened list to a slice panics the same way.
\<close>

theorem Flatten_empty_sublist_panics:
  "(let (e, s1) = L [] init_st;
        (l1, s2) = L [VInt KInt 1] s1;
        (ll, s3) = L [VThunk e, VThunk l1] s2;
        (fl, s4) = Flatten ll s3
    in outcome (force test_fe 10 fl VNil s4) = Some (Inl NilDeref)
       \<and> outcome (ToSlice test_fe 10 fl s4) = Some (Inl NilDeref))"
  by (simp add: run_defs cong: bnd_weak_cong)

text \<open>
  C2. The stream \<^verbatim>\<open>fibo = Link(1, DelayedLink(1, func() *Thunk { return MapN(sum, fibo,
  fibo.Tail()) }))\<close> of \<^verbatim>\<open>TestFibo\<close> refers to itself through the variable \<^verbatim>\<open>fibo\<close>.
  Building it from the initial state forces nothing: no thunk function has been called
  and the memo table is still empty. Its first five elements are 1, 1, 2, 3, 5, both as
  the slice of \<^verbatim>\<open>fibo.Take(5)\<close> and by the test's own check
  \<^verbatim>\<open>L(1, 1, 2, 3, 5).Equals(fibo.Take(5))\<close>; and the slice is the same with memoization
  stopped.
\<close>

theorem fibo_first_five:
  "(let (fibo, s) = fibo_build init_st
    in evals s = [] \<and> memoTable s = (\<lambda>_. None)
       \<and> (let (t, s1) = Take fibo 5 s
          in outcome (ToSlice test_fe 40 t s1)
             = Some (Inr [VInt KInt 1, VInt KInt 1, VInt KInt 2, VInt KInt 3, VInt KInt 5]))
       \<and> (let (l, s1) = L [VInt KInt 1, VInt KInt 1, VInt KInt 2, VInt KInt 3, VInt KInt 5] s;
              (t, s2) = Take fibo 5 s1
          in outcome (Equals test_fe 40 l t s2) = Some (Inr True))
       \<and> (let (t, s1) = Take fibo 5 (StopMemo s)
          in outcome (ToSlice test_fe 40 t s1)
             = Some (Inr [VInt KInt 1, VInt KInt 1, VInt KInt 2, VInt KInt 3, VInt KInt 5])))"
  by (simp add: run_defs cong: bnd_weak_cong)

text \<open>
  C3 (the code departs from it). \<^verbatim>\<open>L(1, 2).Equals(L(1))\<close>: the lists have lengths 2 and
  1 and agree on the first element. At the second step the receiver's pair is not nil
  and the argument's is nil; the loop tests only \<^verbatim>\<open>pair == nil\<close> and goes on to read
  \<^verbatim>\<open>otherPair.head\<close>: a nil-pointer panic, not \<^verbatim>\<open>false\<close>. With the two lists exchanged,
  \<^verbatim>\<open>L(1).Equals(L(1, 2))\<close> returns \<^verbatim>\<open>false\<close>.
\<close>

theorem Equals_longer_receiver_panics:
  "(let (l1, s1) = L [VInt KInt 1, VInt KInt 2] init_st;
        (l2, s2) = L [VInt KInt 1] s1
    in outcome (Equals test_fe 10 l1 l2 s2) = Some (Inl NilDeref)
       \<and> outcome (Equals test_fe 10 l2 l1 s2) = Some (Inr False))"
  by (simp add: run_defs cong: bnd_weak_cong)

text \<open>
  C4 (the code departs from it). On the list of strings \<^verbatim>\<open>L("a", "b")\<close>, \<^verbatim>\<open>Max\<close> and
  \<^verbatim>\<open>Min\<close> panic: their string case compares \<^verbatim>\<open>accV.Float()\<close> with \<^verbatim>\<open>xV.Float()\<close>, and
  \<^verbatim>\<open>Float\<close> panics on a string. On the list \<^verbatim>\<open>L(float32(1), float32(2))\<close> both return
  nil: the floating-point case returns its \<^verbatim>\<open>float64\<close> copy of the accumulator, whose
  kind differs from that of the next \<^verbatim>\<open>float32\<close> element. On the integers
  \<^verbatim>\<open>L(1, 3, 5, 4, 2)\<close> they return 5 and 1.
\<close>

theorem Max_Min_strings_panic:
  "(let (l, s) = L [VStr ''a'', VStr ''b''] init_st
    in outcome (Max_list test_fe 10 l s) = Some (Inl ReflectValueError)
       \<and> outcome (Min_list test_fe 10 l s) = Some (Inl ReflectValueError))
   \<and> (let (l, s) = L [VFloat KFloat32 1, VFloat KFloat32 2] init_st
      in outcome (Max_list test_fe 10 l s) = Some (Inr VNil)
         \<and> outcome (Min_list test_fe 10 l s) = Some (Inr VNil))
   \<and> (let (l, s) = L [VInt KInt 1, VInt KInt 3, VInt KInt 5, VInt KInt 4, VInt KInt 2] init_st
      in outcome (Max_list test_fe 20 l s) = Some (Inr (VInt KInt 5))
         \<and> outcome (Min_list test_fe 20 l s) = Some (Inr (VInt KInt 1)))"
  by (simp add: run_defs cong: bnd_weak_cong)



text \<open>
  C9 (the code departs from it). With memoization stopped, let \<^verbatim>\<open>prog\<close> be the infinite
  stream \<^verbatim>\<open>integersFromN(1)\<close> of the tests. It has an element at every position, yet
  \<^verbatim>\<open>prog.At(^uint(0))\<close>, the largest index, returns with no amount of fuel, whatever the
  width of \<^verbatim>\<open>uint\<close>: \<^verbatim>\<open>i <= n\<close> holds for every \<^verbatim>\<open>i\<close>, and \<^verbatim>\<open>i++\<close> wraps to 0 after the
  last position, so the loop never leaves. At the index 2 the same list gives 3.
\<close>

theorem At_max_index_never_returns:
  "At fe k (fst (integersFromN 1 (StopMemo init_st))) (- 1 :: 'w::len word)
      (snd (integersFromN 1 (StopMemo init_st))) = None
   \<and> outcome (At test_fe 8 (fst (integersFromN 1 (StopMemo init_st))) (2 :: 64 word)
      (snd (integersFromN 1 (StopMemo init_st)))) = Some (Inr (VInt KInt 3))"
proof -
  have "\<not> memo (snd (integersFromN 1 (StopMemo init_st)))"
    by (simp add: run_defs)
  then have "At fe k (fst (integersFromN 1 (StopMemo init_st))) (- 1 :: 'w::len word)
      (snd (integersFromN 1 (StopMemo init_st))) = None"
    unfolding At_def by (simp add: integersFromN_def DelayedLink_def nextId_def Let_def At_loop_max_stream)
  moreover have "outcome (At test_fe 8 (fst (integersFromN 1 (StopMemo init_st))) (2 :: 64 word)
      (snd (integersFromN 1 (StopMemo init_st)))) = Some (Inr (VInt KInt 3))"
    by (simp add: run_defs cong: bnd_weak_cong)
  ultimately show ?thesis by simp
qed

section \<open>Forcing the cells of a finite list\<close>

lemma quiet_refl [simp]: "quiet G s s"
  by (simp add: quiet_def)

lemma quiet_trans: "quiet G a b \<Longrightarrow> quiet G b c \<Longrightarrow> quiet G a c"
  by (simp add: quiet_def)

lemma chain_ConsE:
  assumes "chain G t (x # xs)"
  obtains i t' where "t = Thunk i (LinkF x t')" "G i = Some (x, t')" "chain G t' xs"
  using assms by (auto split: thunk.splits thunkFunc.splits)

lemma force_chain_Cons:
  assumes I: "inv G B s" and C: "chain G t (x # xs)" and k: "2 \<le> k"
  obtains a t' s' where "force fe k t c s = ret (Some (MkPair a x t')) s'"
    and "chain G t' xs" and "inv G B s'" and "quiet G s s'"
proof -
  from C obtain i t' where t: "t = Thunk i (LinkF x t')" and G: "G i = Some (x, t')"
    and C': "chain G t' xs" by (rule chain_ConsE)
  from k obtain k2 where k2: "k = Suc (Suc k2)" by (metis add_2_eq_Suc le_Suc_ex)
  from I G have il: "1 < i" "i \<le> thunkId s"
    and m: "memoTable s i = None \<or> (\<exists>a. memoTable s i = Some (Some (MkPair a x t')))"
    unfolding inv_def by fastforce+
  show thesis
  proof (cases "memo s")
    case False
    let ?s' = "s\<lparr>evals := i # evals s, nextPair := nextPair s + 1\<rparr>"
    have "force fe k t c s = ret (Some (MkPair (nextPair s) x t')) ?s'"
      using False by (simp add: t k2 newPair_def)
    moreover have "inv G B ?s'" using I by (simp add: inv_def)
    moreover have "quiet G s ?s'" by (simp add: quiet_def)
    ultimately show ?thesis using C' that by blast
  next
    case True
    from m show ?thesis
    proof
      assume n: "memoTable s i = None"
      let ?p = "MkPair (nextPair s) x t'"
      let ?s' = "s\<lparr>evals := i # evals s, nextPair := nextPair s + 1,
                    memoTable := (memoTable s)(i := Some (Some ?p))\<rparr>"
      have "force fe k t c s = ret (Some ?p) ?s'"
        using True n by (simp add: t k2 newPair_def)
      moreover have "inv G B ?s'" using I il G unfolding inv_def by auto
      moreover have "quiet G s ?s'" using G by (auto simp: quiet_def)
      ultimately show ?thesis using C' that by blast
    next
      assume "\<exists>a. memoTable s i = Some (Some (MkPair a x t'))"
      then obtain a where "memoTable s i = Some (Some (MkPair a x t'))" ..
      then have "force fe k t c s = ret (Some (MkPair a x t')) s"
        using True by (simp add: t k2)
      then show ?thesis using C' I that by (metis quiet_refl)
    qed
  qed
qed

lemma force_chain_Nil:
  assumes I: "inv G B s" and C: "chain G t []" and k: "2 \<le> k"
  obtains s' where "force fe k t c s = ret None s'" and "inv G B s'" and "quiet G s s'"
    and "memoTable s' = memoTable s \<or> memoTable s' = (memoTable s)(1 := Some None)"
proof -
  from k obtain k2 where k2: "k = Suc (Suc k2)" by (metis add_2_eq_Suc le_Suc_ex)
  from C have "t = Empty \<or> t = NilThunk" by simp
  then show thesis
  proof
    assume "t = NilThunk"
    then have "force fe k t c s = ret None s" by (simp add: k2)
    then show ?thesis using I that by (metis quiet_refl)
  next
    assume t: "t = Empty"
    from I have m: "memoTable s 1 = None \<or> memoTable s 1 = Some None" and B: "1 \<le> thunkId s"
      unfolding inv_def by auto
    show ?thesis
    proof (cases "memo s")
      case False
      let ?s' = "s\<lparr>evals := 1 # evals s\<rparr>"
      have "force fe k t c s = ret None ?s'" using False by (simp add: t k2 Empty_def)
      moreover have "inv G B ?s'" using I by (simp add: inv_def)
      moreover have "quiet G s ?s'" by (simp add: quiet_def)
      ultimately show ?thesis using that by auto
    next
      case True
      from m show ?thesis
      proof
        assume n: "memoTable s 1 = None"
        let ?s' = "s\<lparr>evals := 1 # evals s, memoTable := (memoTable s)(1 := Some None)\<rparr>"
        have "force fe k t c s = ret None ?s'" using True n by (simp add: t k2 Empty_def)
        moreover have "inv G B ?s'" using I B unfolding inv_def by auto
        moreover have "quiet G s ?s'" by (auto simp: quiet_def)
        ultimately show ?thesis using that by auto
      next
        assume "memoTable s 1 = Some None"
        then have "force fe k t c s = ret None s" using True by (simp add: t k2 Empty_def)
        then show ?thesis using I that by (metis quiet_refl)
      qed
    qed
  qed
qed

lemma Length_chain:
  assumes "inv G B s" and "chain G t xs" and "length xs + 3 \<le> k"
  shows "\<exists>s'. Length_loop fe k t r s = ret (r + of_nat (length xs)) s' \<and> inv G B s' \<and> quiet G s s'"
  using assms
proof (induction xs arbitrary: t r s k)
  case Nil
  then obtain k1 where k: "k = Suc k1" "2 \<le> k1" by (cases k) auto
  from force_chain_Nil[OF Nil(1,2) k(2), of fe VNil] obtain s' where
    "force fe k1 t VNil s = ret None s'" "inv G B s'" "quiet G s s'" by blast
  then show ?case by (auto simp: k)
next
  case (Cons x xs)
  then obtain k1 where k: "k = Suc k1" "2 \<le> k1" "length xs + 3 \<le> k1" by (cases k) auto
  from force_chain_Cons[OF Cons.prems(1,2) k(2), of fe VNil] obtain a t' s1 where
    f: "force fe k1 t VNil s = ret (Some (MkPair a x t')) s1" and c: "chain G t' xs"
    and i: "inv G B s1" and q: "quiet G s s1" by blast
  from Cons.IH[OF i c k(3), of "r + 1"] obtain s' where
    "Length_loop fe k1 t' (r + 1) s1 = ret (r + 1 + of_nat (length xs)) s'" "inv G B s'" "quiet G s1 s'"
    by blast
  with f q show ?case by (auto simp: k intro: quiet_trans)
qed


lemma bnd_ret_right [simp]: "bnd m (\<lambda>r s'. ret r s') = m"
  by (cases m) (auto simp: bnd_def ret_def split: sum.splits)

lemma force_fresh:
  assumes "memo s \<longrightarrow> memoTable s j = None"
  shows "force fe (Suc k) (Thunk j f) c s =
     bnd (call fe k f c (s\<lparr>evals := j # evals s\<rparr>)) (\<lambda>r s'. ret r (remember (memo s) j r s'))"
  using assms by (cases "memo s") (simp_all add: remember_def)

lemma nextId_nowrap:
  "thunkId s + 1 < 2 ^ 64 \<Longrightarrow> nextId s = (thunkId s + 1, s\<lparr>thunkId := thunkId s + 1\<rparr>)"
  by (simp add: nextId_def Let_def)

lemma inv_remember:
  assumes "inv G B s" and "B < j" and "j \<le> thunkId s"
  shows "inv G B (remember b j r s)"
proof -
  from assms have "\<And>x t. G j \<noteq> Some (x, t)" and "j \<noteq> 1"
    unfolding inv_def by fastforce+
  with assms show ?thesis unfolding inv_def remember_def by auto
qed

lemma inv_alloc:
  assumes "inv G B s" and "thunkId s \<le> i"
  shows "inv G B (s\<lparr>thunkId := i\<rparr>)"
  using assms unfolding inv_def by auto

lemma inv_misc [simp]:
  "inv G B (s\<lparr>evals := e\<rparr>) = inv G B s"
  "inv G B (s\<lparr>nextPair := a\<rparr>) = inv G B s"
  "inv G B (s\<lparr>tvars := tv\<rparr>) = inv G B s"
  "inv G B (s\<lparr>uvars := uv\<rparr>) = inv G B s"
  by (simp_all add: inv_def)

lemma inv_fresh_None: "inv G B s \<Longrightarrow> thunkId s < i \<Longrightarrow> memoTable s i = None"
  by (simp add: inv_def)

lemma Length_Take:
  assumes "inv G B s" and "chain G l xs"
    and "B < j" and "j \<le> thunkId s" and "memo s \<longrightarrow> memoTable s j = None"
    and "thunkId s + length xs < 2 ^ 64" and "length xs + 5 \<le> k"
  shows "\<exists>s'. Length_loop fe k (Thunk j (TakeF l n)) r s
            = ret (r + of_nat (min (unat n) (length xs))) s' \<and> inv G B s'"
  using assms
proof (induction xs arbitrary: l n j r s k)
  case Nil
  define k3 where "k3 = k - 3"
  with Nil.prems have k: "k = Suc (Suc (Suc k3))" "2 \<le> k3" by simp_all
  note ff = force_fresh[OF Nil.prems(5), of fe "Suc k3"]
  show ?case
  proof (cases "n = 0")
    case True
    have "inv G B (remember (memo s) j None (s\<lparr>evals := j # evals s\<rparr>))"
      using Nil.prems by (intro inv_remember) simp_all
    then show ?thesis using True by (simp add: k ff del: force.simps)
  next
    case False
    then have n: "0 < n" by (simp add: word_greater_zero_iff)
    from force_chain_Nil[OF _ Nil.prems(2) k(2), of B "s\<lparr>evals := j # evals s\<rparr>" fe VNil]
      Nil.prems(1)
    obtain s1 where f: "force fe k3 l VNil (s\<lparr>evals := j # evals s\<rparr>) = ret None s1"
      and i1: "inv G B s1" and q: "quiet G (s\<lparr>evals := j # evals s\<rparr>) s1" by auto
    have "inv G B (remember (memo s) j None s1)"
      using Nil.prems i1 q by (intro inv_remember) (simp_all add: quiet_def)
    then show ?thesis using n f by (simp add: k ff del: force.simps)
  qed
next
  case (Cons x xs)
  define k3 where "k3 = k - 3"
  with Cons.prems have k: "k = Suc (Suc (Suc k3))" "2 \<le> k3" "length xs + 5 \<le> Suc (Suc k3)"
    by simp_all
  note ff = force_fresh[OF Cons.prems(5), of fe "Suc k3"]
  show ?case
  proof (cases "n = 0")
    case True
    have "inv G B (remember (memo s) j None (s\<lparr>evals := j # evals s\<rparr>))"
      using Cons.prems by (intro inv_remember) simp_all
    then show ?thesis using True by (simp add: k ff del: force.simps)
  next
    case False
    then have n: "0 < n" by (simp add: word_greater_zero_iff)
    then have un: "unat n = Suc (unat (n - 1))"
      by (metis False Suc_pred' unat_gt_0 unat_minus_one)
    let ?s0 = "s\<lparr>evals := j # evals s\<rparr>"
    from force_chain_Cons[OF _ Cons.prems(2) k(2), of B ?s0 fe VNil] Cons.prems(1)
    obtain a l' s1 where f: "force fe k3 l VNil ?s0 = ret (Some (MkPair a x l')) s1"
      and c: "chain G l' xs" and i1: "inv G B s1" and q: "quiet G ?s0 s1" by auto
    from q have t1: "thunkId s1 = thunkId s" and m1: "memo s1 = memo s" by (simp_all add: quiet_def)
    let ?j1 = "thunkId s + 1"
    let ?s2 = "s1\<lparr>thunkId := ?j1\<rparr>"
    let ?p = "Some (MkPair (nextPair s1) x (Thunk ?j1 (TakeF l' (n - 1))))"
    let ?s3 = "remember (memo s) j ?p (?s2\<lparr>nextPair := nextPair s1 + 1\<rparr>)"
    have tk: "Take l' (n - 1) s1 = (Thunk ?j1 (TakeF l' (n - 1)), ?s2)"
      using Cons.prems(6) t1 by (simp add: Take_def nextId_nowrap)
    have frc: "force fe (Suc (Suc k3)) (Thunk j (TakeF l n)) VNil s = ret ?p ?s3"
      using n f tk by (simp add: ff newPair_def del: force.simps)
    have i3: "inv G B ?s3"
      using Cons.prems(3,4) i1 t1 by (intro inv_remember) (simp_all add: inv_alloc)
    have fresh: "memo ?s3 \<longrightarrow> memoTable ?s3 ?j1 = None"
      using inv_fresh_None[OF i1, of ?j1] t1 Cons.prems(4) by (simp add: remember_def)
    have t3: "thunkId ?s3 = ?j1" by (simp add: remember_def)
    from Cons.IH[OF i3 c, where j = ?j1 and k = "Suc (Suc k3)" and n = "n - 1" and r = "r + 1"]
      fresh t3 Cons.prems k
    obtain s' where "Length_loop fe (Suc (Suc k3)) (Thunk ?j1 (TakeF l' (n - 1))) (r + 1) ?s3
        = ret (r + 1 + of_nat (min (unat (n - 1)) (length xs))) s'" and "inv G B s'"
      by auto
    then show ?thesis using frc un by (simp add: k del: force.simps)
  qed
qed


lemma sint_of_nat_small:
  "m < 2 ^ 63 \<Longrightarrow> sint (of_nat m :: 64 word) = int m"
  by (simp add: signed_of_nat signed_take_bit_int_eq_self)

lemma chain_mono:
  assumes "\<And>j v. G j = Some v \<Longrightarrow> G' j = Some v"
  shows "chain G u ys \<Longrightarrow> chain G' u ys"
  by (induction ys arbitrary: u) (auto split: thunk.splits thunkFunc.splits dest: assms)

lemma inv_raise: "inv G B s \<Longrightarrow> inv G (thunkId s) s"
  unfolding inv_def by fastforce

lemma inv_G_bound: "inv G B s \<Longrightarrow> G i = Some v \<Longrightarrow> 1 < i \<and> i \<le> B"
  by (cases v) (auto simp: inv_def)

lemma inv_G_None: "inv G B s \<Longrightarrow> B < i \<Longrightarrow> G i = None"
  using inv_G_bound[of G B s i] by (cases "G i") auto

lemma invI:
  assumes "1 \<le> B" and "B \<le> thunkId s"
    and "\<And>i. thunkId s < i \<Longrightarrow> memoTable s i = None"
    and "memoTable s 1 = None \<or> memoTable s 1 = Some None"
    and "\<And>i x t. G i = Some (x, t) \<Longrightarrow>
           1 < i \<and> i \<le> B
           \<and> (memoTable s i = None \<or> (\<exists>a. memoTable s i = Some (Some (MkPair a x t))))"
  shows "inv G B s"
  using assms unfolding inv_def by blast

lemma inv_cell:
  "inv G B s \<Longrightarrow> G i = Some (x, t) \<Longrightarrow>
     memoTable s i = None \<or> (\<exists>a. memoTable s i = Some (Some (MkPair a x t)))"
  unfolding inv_def by blast

lemma inv_init: "inv (\<lambda>_. None) 1 init_st"
  by (simp add: inv_def init_st_def)

lemma inv_Link:
  assumes i1: "inv G1 (thunkId s1) s1"
  shows "inv (G1(thunkId s1 + 1 := Some (x, t))) (thunkId s1 + 1) (s1\<lparr>thunkId := thunkId s1 + 1\<rparr>)"
proof (rule invI)
  let ?i = "thunkId s1 + 1"
  let ?G = "G1(?i := Some (x, t))"
  let ?s2 = "s1\<lparr>thunkId := ?i\<rparr>"
  show "1 \<le> ?i" by simp
  show "?i \<le> thunkId ?s2" by simp
  show "memoTable ?s2 i = None" if "thunkId ?s2 < i" for i
    using that inv_fresh_None[OF i1, of i] by simp
  show "memoTable ?s2 1 = None \<or> memoTable ?s2 1 = Some None"
    using i1 by (simp add: inv_def)
  show "1 < i' \<and> i' \<le> ?i
        \<and> (memoTable ?s2 i' = None \<or> (\<exists>a. memoTable ?s2 i' = Some (Some (MkPair a y u))))"
    if h: "?G i' = Some (y, u)" for i' y u
  proof (cases "i' = ?i")
    case True
    have "1 \<le> thunkId s1" using i1 by (simp add: inv_def)
    moreover have "memoTable s1 ?i = None" using inv_fresh_None[OF i1, of ?i] by simp
    ultimately show ?thesis unfolding True by simp
  next
    case False
    with h have g: "G1 i' = Some (y, u)" by simp
    from inv_G_bound[OF i1 g] inv_cell[OF i1 g] show ?thesis by simp
  qed
qed


lemma List_chain:
  assumes "inv G B s" and "thunkId s + length xs < 2 ^ 64"
  shows "\<exists>G' t s'. List xs s = (t, s') \<and> inv G' (thunkId s') s' \<and> chain G' t xs
           \<and> thunkId s' = thunkId s + length xs
           \<and> (\<forall>j v. G j = Some v \<longrightarrow> G' j = Some v)"
  using assms
proof (induction xs)
  case Nil
  have "inv G (thunkId s) s" using Nil(1) by (rule inv_raise)
  then show ?case by (intro exI[of _ G] exI[of _ Empty] exI[of _ s]) simp
next
  case (Cons x xs)
  from Cons.prems have "thunkId s + length xs < 2 ^ 64" by simp
  from Cons.IH[OF Cons.prems(1) this]
  obtain G1 t s1 where l: "List xs s = (t, s1)" and i1: "inv G1 (thunkId s1) s1"
    and c1: "chain G1 t xs" and t1: "thunkId s1 = thunkId s + length xs"
    and g1: "\<forall>j v. G j = Some v \<longrightarrow> G1 j = Some v" by blast
  let ?i = "thunkId s1 + 1"
  let ?G = "G1(?i := Some (x, t))"
  let ?s2 = "s1\<lparr>thunkId := ?i\<rparr>"
  have "thunkId s1 + 1 < 2 ^ 64" using Cons.prems(2) t1 by simp
  then have lk: "Link x t s1 = (Thunk ?i (LinkF x t), ?s2)"
    by (simp add: Link_def nextId_nowrap)
  have old: "G1 ?i = None" using i1 by (rule inv_G_None) simp
  have i2: "inv ?G ?i ?s2" using i1 by (rule inv_Link)
  have sub: "\<And>j v. G1 j = Some v \<Longrightarrow> ?G j = Some v" using old by auto
  have "chain ?G t xs" using sub c1 by (rule chain_mono)
  then have c2: "chain ?G (Thunk ?i (LinkF x t)) (x # xs)" by simp
  have g2: "\<forall>j v. G j = Some v \<longrightarrow> ?G j = Some v" using g1 sub by blast
  have "List (x # xs) s = (Thunk ?i (LinkF x t), ?s2)" using l lk by simp
  moreover have "thunkId ?s2 = thunkId s + length (x # xs)" using t1 by simp
  moreover have "inv ?G (thunkId ?s2) ?s2" using i2 by simp
  ultimately show ?case using c2 g2 by blast
qed


lemma list123_eq:
  "list123 = Thunk 4 (LinkF (VInt KInt 1) (Thunk 3 (LinkF (VInt KInt 2) (Thunk 2 (LinkF (VInt KInt 3) Empty)))))"
  "st123 = init_st\<lparr>thunkId := 4\<rparr>"
  by (simp_all add: list123_def st123_def Link_def nextId_def init_st_def)

lemma inv123: "inv cells123 4 st123"
  by (auto simp: inv_def list123_eq cells123_def init_st_def)

lemma chain123: "chain cells123 list123 [VInt KInt 1, VInt KInt 2, VInt KInt 3]"
  by (simp add: list123_eq cells123_def)

declare rows.simps [simp del]

lemma rows_stop: "xss = [] \<or> [] \<in> set xss \<Longrightarrow> rows xss = []"
  by (subst rows.simps) simp

lemma rows_step: "xss \<noteq> [] \<Longrightarrow> [] \<notin> set xss \<Longrightarrow> rows xss = map hd xss # rows (map tl xss)"
  by (subst rows.simps) simp

lemma forceEach_chains:
  assumes "inv G B s" and "list_all2 (chain G) ts xss" and "2 \<le> k"
  shows "\<exists>s'. inv G B s' \<and> quiet G s s' \<and>
     (if [] \<in> set xss
      then forceEach (\<lambda>t s'. force fe k t VNil s') ts hs tls s = ret None s'
      else (\<exists>ts'. forceEach (\<lambda>t s'. force fe k t VNil s') ts hs tls s
                    = ret (Some (hs @ map hd xss, tls @ ts')) s'
                  \<and> list_all2 (chain G) ts' (map tl xss)))"
  using assms(2,1)
proof (induction ts xss arbitrary: hs tls s rule: list_all2_induct)
  case Nil
  then show ?case by auto
next
  case (Cons t ts xs xss)
  show ?case
  proof (cases xs)
    case Nil
    with Cons.hyps(1) have c: "chain G t []" by simp
    from force_chain_Nil[OF Cons.prems c assms(3), of fe VNil] obtain s1 where
      "force fe k t VNil s = ret None s1" "inv G B s1" "quiet G s s1" by blast
    then show ?thesis using Nil by auto
  next
    case xs: (Cons x xs')
    with Cons.hyps(1) have c: "chain G t (x # xs')" by simp
    from force_chain_Cons[OF Cons.prems c assms(3), of fe VNil] obtain a t' s1 where
      f: "force fe k t VNil s = ret (Some (MkPair a x t')) s1" and c': "chain G t' xs'"
      and i1: "inv G B s1" and q1: "quiet G s s1" by blast
    from Cons.IH[OF i1, of "hs @ [x]" "tls @ [t']"] obtain s' where
      i': "inv G B s'" and q': "quiet G s1 s'" and
      r: "if [] \<in> set xss
          then forceEach (\<lambda>t s'. force fe k t VNil s') ts (hs @ [x]) (tls @ [t']) s1 = ret None s'
          else (\<exists>ts'. forceEach (\<lambda>t s'. force fe k t VNil s') ts (hs @ [x]) (tls @ [t']) s1
                    = ret (Some ((hs @ [x]) @ map hd xss, (tls @ [t']) @ ts')) s'
                  \<and> list_all2 (chain G) ts' (map tl xss))" by blast
    from q1 q' have q: "quiet G s s'" by (rule quiet_trans)
    show ?thesis
    proof (cases "[] \<in> set xss")
      case True
      with r f i' q xs show ?thesis by auto
    next
      case False
      with r obtain ts' where
        "forceEach (\<lambda>t s'. force fe k t VNil s') ts (hs @ [x]) (tls @ [t']) s1
                    = ret (Some ((hs @ [x]) @ map hd xss, (tls @ [t']) @ ts')) s'"
        and "list_all2 (chain G) ts' (map tl xss)" by auto
      with f i' q xs False c' show ?thesis
        by (intro exI[of _ s']) (auto intro!: exI[of _ "t' # ts'"])
    qed
  qed
qed

lemma ReduceN_chains:
  assumes "inv G B s" and "list_all2 (chain G) ts xss" and "ts \<noteq> []"
    and "length (rows xss) + 3 \<le> k"
  shows "outcome (ReduceN fe k f acc ts s) = Some (foldE f acc (rows xss))"
  using assms
proof (induction xss arbitrary: ts s acc k rule: rows.induct)
  case (1 xss)
  define k1 where "k1 = k - 1"
  with "1.prems" have k: "k = Suc k1" "2 \<le> k1" by simp_all
  from "1.prems"(2,3) have ne: "xss \<noteq> []" by auto
  from forceEach_chains[OF "1.prems"(1,2) k(2), of fe "[]" "[]"] obtain s1 where
    i1: "inv G B s1" and
    r: "if [] \<in> set xss
        then forceEach (\<lambda>t s'. force fe k1 t VNil s') ts [] [] s = ret None s1
        else (\<exists>ts'. forceEach (\<lambda>t s'. force fe k1 t VNil s') ts [] [] s
                    = ret (Some ([] @ map hd xss, [] @ ts')) s1
                  \<and> list_all2 (chain G) ts' (map tl xss))" by blast
  show ?case
  proof (cases "[] \<in> set xss")
    case True
    with r show ?thesis by (simp add: k rows_stop)
  next
    case False
    with r obtain ts' where fe: "forceEach (\<lambda>t s'. force fe k1 t VNil s') ts [] [] s
                    = ret (Some (map hd xss, ts')) s1"
      and c: "list_all2 (chain G) ts' (map tl xss)" by auto
    from c ne have ne': "ts' \<noteq> []" by auto
    have rw: "rows xss = map hd xss # rows (map tl xss)" using ne False by (rule rows_step)
    show ?thesis
    proof (cases "f acc (map hd xss)")
      case (Inl e)
      with fe show ?thesis by (simp add: k rw)
    next
      case (Inr acc')
      have "length (rows (map tl xss)) + 3 \<le> k1" using "1.prems"(4) rw k by simp
      from "1.IH"[OF _ i1 c ne' this, of acc'] ne False
      have "outcome (ReduceN fe k1 f acc' ts' s1) = Some (foldE f acc' (rows (map tl xss)))" by simp
      with fe Inr show ?thesis by (simp add: k rw)
    qed
  qed
qed

section \<open>MapN over finite lists\<close>

lemma length_rows:
  "xss \<noteq> [] \<Longrightarrow> length (rows xss) = Min (length ` set xss)"
proof (induction xss rule: rows.induct)
  case (1 xss)
  show ?case
  proof (cases "[] \<in> set xss")
    case True
    then have "0 \<in> length ` set xss" by force
    then have "Min (length ` set xss) = 0"
      by (metis List.finite_set Min_le finite_imageI le_zero_eq)
    with True show ?thesis by (simp add: rows_stop)
  next
    case False
    with "1.prems" have ih: "length (rows (map tl xss)) = Min (length ` set (map tl xss))"
      using "1.IH" by simp
    have "length ` set xss = Suc ` (length ` set (map tl xss))"
    proof -
      have "\<And>xs. xs \<in> set xss \<Longrightarrow> length xs = Suc (length (tl xs))"
        using False by (metis length_Suc_conv list.sel(3) neq_Nil_conv)
      then show ?thesis by (force simp: image_iff)
    qed
    moreover have "Min (Suc ` (length ` set (map tl xss))) = Suc (Min (length ` set (map tl xss)))"
      using "1.prems" by (intro mono_Min_commute[symmetric]) (auto simp: mono_def)
    ultimately show ?thesis using ih "1.prems" False by (simp add: rows_step)
  qed
qed

lemma rows_nth:
  "i < length (rows xss) \<Longrightarrow> rows xss ! i = map (\<lambda>xs. xs ! i) xss"
proof (induction xss arbitrary: i rule: rows.induct)
  case (1 xss)
  from "1.prems" have ne: "xss \<noteq> []" "[] \<notin> set xss"
    by (auto simp: rows_stop)
  then have rw: "rows xss = map hd xss # rows (map tl xss)" by (rule rows_step)
  show ?case
  proof (cases i)
    case 0
    have "map hd xss = map (\<lambda>xs. xs ! 0) xss"
    proof (intro map_cong refl)
      fix xs assume "xs \<in> set xss"
      with ne have "xs \<noteq> []" by auto
      then show "hd xs = xs ! 0" by (simp add: hd_conv_nth)
    qed
    with 0 rw show ?thesis by simp
  next
    case (Suc i')
    with "1.prems" rw have lt: "i' < length (rows (map tl xss))" by simp
    from ne have ne': "map tl xss \<noteq> []" by simp
    from lt length_rows[OF ne'] have "\<And>xs. xs \<in> set xss \<Longrightarrow> i' < length (tl xs)"
      by (metis (no_types, lifting) List.finite_set Min_le finite_imageI image_eqI image_set
          less_le_trans list.set_map)
    then have "map (\<lambda>xs. xs ! i') (map tl xss) = map (\<lambda>xs. xs ! i) xss"
      using Suc by (auto simp: nth_tl)
    with "1.IH"[OF _ lt] ne Suc rw show ?thesis by simp
  qed
qed

lemma SliceToList_loop_effect:
  "thunkId s + length ys < 2 ^ 64 \<Longrightarrow>
   \<exists>t. SliceToList_loop ys r s = (t, s\<lparr>thunkId := thunkId s + length ys\<rparr>)
      \<and> elems t = rev ys @ elems r"
proof (induction ys arbitrary: r s)
  case Nil
  then show ?case by simp
next
  case (Cons y ys)
  let ?s1 = "s\<lparr>thunkId := thunkId s + 1\<rparr>"
  let ?r1 = "Thunk (thunkId s + 1) (LinkF y r)"
  have lk: "Link y r s = (?r1, ?s1)" using Cons.prems by (simp add: Link_def nextId_nowrap)
  from Cons.prems have "thunkId ?s1 + length ys < 2 ^ 64" by simp
  from Cons.IH[OF this, of ?r1] obtain t where
    "SliceToList_loop ys ?r1 ?s1 = (t, ?s1\<lparr>thunkId := thunkId ?s1 + length ys\<rparr>)"
    and "elems t = rev ys @ elems ?r1" by blast
  with lk show ?case by simp
qed

lemma applyFn_effect:
  assumes "thunkId s + length r < 2 ^ 64" and "fn_total fe g r"
  shows "\<exists>v d. applyFn fe g r s = ret v (s\<lparr>thunkId := thunkId s + d\<rparr>) \<and> d \<le> length r
           \<and> fn_result fe g r v"
proof (cases g)
  case (UserFn u)
  with assms(2) obtain v where "fe u r = Inr v" by (auto simp: fn_total_def split: sum.splits)
  with UserFn show ?thesis
    by (intro exI[of _ v] exI[of _ 0]) (simp add: applyFn_def fn_result_def)
next
  case SliceToListFn
  from assms(1) have "thunkId s + length (rev r) < 2 ^ 64" by simp
  from SliceToList_loop_effect[OF this, of Empty] obtain t where
    "SliceToList_loop (rev r) Empty s = (t, s\<lparr>thunkId := thunkId s + length r\<rparr>)"
    and "elems t = r" by (auto simp: Empty_def)
  with SliceToListFn show ?thesis
    by (intro exI[of _ "VThunk t"] exI[of _ "length r"])
       (simp add: applyFn_def SliceToList_def fn_result_def)
qed


lemma quiet_thunkId: "quiet G s s' \<Longrightarrow> thunkId s' = thunkId s"
  and quiet_memo: "quiet G s s' \<Longrightarrow> memo s' = memo s"
  by (simp_all add: quiet_def)

lemma ToSlice_MapN:
  assumes "inv G B s" and "list_all2 (chain G) ts xss" and "ts \<noteq> []"
    and "B < j" and "j \<le> thunkId s" and "memo s \<longrightarrow> memoTable s j = None"
    and "thunkId s + length (rows xss) * (length ts + 1) < 2 ^ 64"
    and "length (rows xss) + 5 \<le> k"
    and "\<forall>r \<in> set (rows xss). fn_total fe g r"
  shows "\<exists>vs s'. ToSlice fe k (Thunk j (MapNF g ts)) s = ret vs s' \<and> inv G B s'
           \<and> list_all2 (fn_result fe g) (rows xss) vs"
  using assms
proof (induction xss arbitrary: ts s j k rule: rows.induct)
  case (1 xss)
  define k3 where "k3 = k - 3"
  with "1.prems"(8) have k: "k = Suc (Suc (Suc k3))" "2 \<le> k3" by simp_all
  from "1.prems"(2,3) have ne: "xss \<noteq> []" by auto
  from "1.prems"(2) have len: "length xss = length ts" by (simp add: list_all2_lengthD)
  define s0 where "s0 = s\<lparr>evals := j # evals s\<rparr>"
  have i0: "inv G B s0" using "1.prems"(1) by (simp add: s0_def)
  have ff: "force fe (Suc (Suc k3)) (Thunk j (MapNF g ts)) VNil s =
     bnd (call fe (Suc k3) (MapNF g ts) VNil s0) (\<lambda>r s'. ret r (remember (memo s) j r s'))"
    unfolding s0_def by (rule force_fresh[OF "1.prems"(6)])
  from forceEach_chains[OF i0 "1.prems"(2) k(2), of fe "[]" "[]"] obtain s1 where
    i1: "inv G B s1" and q1: "quiet G s0 s1" and
    r: "if [] \<in> set xss
        then forceEach (\<lambda>t s'. force fe k3 t VNil s') ts [] [] s0 = ret None s1
        else (\<exists>ts'. forceEach (\<lambda>t s'. force fe k3 t VNil s') ts [] [] s0
                    = ret (Some ([] @ map hd xss, [] @ ts')) s1
                  \<and> list_all2 (chain G) ts' (map tl xss))" by blast
  from q1 have t1: "thunkId s1 = thunkId s" and m1: "memo s1 = memo s"
    by (simp_all add: quiet_def s0_def)
  show ?case
  proof (cases "[] \<in> set xss")
    case True
    with r have "call fe (Suc k3) (MapNF g ts) VNil s0 = ret None s1" by simp
    then have "force fe (Suc (Suc k3)) (Thunk j (MapNF g ts)) VNil s
        = ret None (remember (memo s) j None s1)" by (simp add: ff del: force.simps call.simps)
    moreover have "inv G B (remember (memo s) j None s1)"
      using i1 "1.prems"(4,5) t1 by (intro inv_remember) simp_all
    ultimately show ?thesis using True by (simp add: k rows_stop del: force.simps)
  next
    case False
    with r obtain ts' where fe: "forceEach (\<lambda>t s'. force fe k3 t VNil s') ts [] [] s0
                    = ret (Some (map hd xss, ts')) s1"
      and c: "list_all2 (chain G) ts' (map tl xss)" by auto
    from c ne have ne': "ts' \<noteq> []" by auto
    from c have len': "length ts' = length ts" using len by (simp add: list_all2_lengthD)
    have rw: "rows xss = map hd xss # rows (map tl xss)" using ne False by (rule rows_step)
    define m where "m = length (rows (map tl xss))"
    have bud: "thunkId s + (length ts + 1) + m * (length ts + 1) < 2 ^ 64"
      using "1.prems"(7) rw by (simp add: m_def)
    have tot: "fn_total fe g (map hd xss)" using "1.prems"(9) rw by simp
    have "thunkId s1 + length (map hd xss) < 2 ^ 64" using bud t1 len by simp
    from applyFn_effect[OF this tot] obtain v d where
      ap: "applyFn fe g (map hd xss) s1 = ret v (s1\<lparr>thunkId := thunkId s1 + d\<rparr>)"
      and d: "d \<le> length ts" and fr: "fn_result fe g (map hd xss) v"
      using len by auto
    define j' where "j' = thunkId s + d + 1"
    define s3 where "s3 = s1\<lparr>thunkId := j'\<rparr>"
    define p where "p = Some (MkPair (nextPair s1) v (Thunk j' (MapNF g ts')))"
    define s5 where "s5 = remember (memo s) j p (s3\<lparr>nextPair := nextPair s1 + 1\<rparr>)"
    have mp: "MapN g ts' (s1\<lparr>thunkId := thunkId s1 + d\<rparr>) = (Thunk j' (MapNF g ts'), s3)"
      using bud d t1 by (simp add: MapN_def nextId_nowrap j'_def s3_def)
    have cl: "call fe (Suc k3) (MapNF g ts) VNil s0 = ret p (s3\<lparr>nextPair := nextPair s1 + 1\<rparr>)"
      using fe ap mp by (simp add: newPair_def p_def s3_def)
    have frc: "force fe (Suc (Suc k3)) (Thunk j (MapNF g ts)) VNil s = ret p s5"
      using cl by (simp add: ff s5_def del: force.simps call.simps)
    have i3: "inv G B (s3\<lparr>nextPair := nextPair s1 + 1\<rparr>)"
      using i1 t1 by (simp add: s3_def j'_def inv_alloc)
    have i5: "inv G B s5"
      unfolding s5_def using i3 "1.prems"(4,5) by (intro inv_remember) (simp_all add: s3_def j'_def)
    have t5: "thunkId s5 = j'" by (simp add: s5_def s3_def remember_def)
    have fresh: "memo s5 \<longrightarrow> memoTable s5 j' = None"
      using inv_fresh_None[OF i1, of j'] t1 "1.prems"(5)
      by (simp add: s5_def s3_def remember_def j'_def)
    have Bj: "B < j'" using "1.prems"(4,5) by (simp add: j'_def)
    have bud': "thunkId s5 + length (rows (map tl xss)) * (length ts' + 1) < 2 ^ 64"
      using bud d by (simp add: t5 j'_def len' m_def)
    have fuel': "length (rows (map tl xss)) + 5 \<le> Suc (Suc k3)"
      using "1.prems"(8) rw k by simp
    have tot': "\<forall>r \<in> set (rows (map tl xss)). fn_total fe g r" using "1.prems"(9) rw by simp
    from "1.IH"[OF _ i5 c ne' Bj _ fresh bud' fuel' tot'] ne False t5
    obtain vs s' where ts: "ToSlice fe (Suc (Suc k3)) (Thunk j' (MapNF g ts')) s5 = ret vs s'"
      and i': "inv G B s'" and la: "list_all2 (fn_result fe g) (rows (map tl xss)) vs"
      by auto
    have "ToSlice fe k (Thunk j (MapNF g ts)) s = ret (v # vs) s'"
      using frc ts by (simp add: k p_def del: force.simps)
    with i' la fr rw show ?thesis by auto
  qed
qed


lemma list45_eq:
  "list45 = Thunk 6 (LinkF (VInt KInt 4) (Thunk 5 (LinkF (VInt KInt 5) Empty)))"
  "st45 = init_st\<lparr>thunkId := 6\<rparr>"
  by (simp_all add: list45_def st45_def list123_eq Link_def nextId_def init_st_def)

lemma inv45: "inv cells45 6 st45"
  by (auto simp: inv_def list45_eq cells45_def cells123_def init_st_def)

lemma chain45:
  "chain cells45 list123 [VInt KInt 1, VInt KInt 2, VInt KInt 3]"
  "chain cells45 list45 [VInt KInt 4, VInt KInt 5]"
  by (simp_all add: list123_eq list45_eq cells45_def cells123_def)

section \<open>Take, Drop and Append over a finite list\<close>

text \<open>
  \<^verbatim>\<open>l.Take(n).Append(l.Drop(n))\<close> compared with \<^verbatim>\<open>l\<close>: while the prefix lasts, each step
  forces the current \<^verbatim>\<open>Append\<close> thunk, which forces its \<^verbatim>\<open>Take\<close> thunk, which forces a
  cell of \<open>l\<close>; the \<^verbatim>\<open>Drop\<close> thunk is passed along untouched. When the prefix ends the
  \<^verbatim>\<open>Drop\<close> thunk is forced, once: its closure walks \<open>n\<close> cells of \<open>l\<close>, assigning to its
  captured variables, and hands out the cell it stops at; from there on the tails are
  \<^verbatim>\<open>Append(tail, Empty)\<close>. Two heads that are lists are the same list of \<^verbatim>\<open>Link\<close> cells,
  which the nested \<^verbatim>\<open>Equals\<close> walks twice in step.
\<close>

lemma unc_quiet: "quiet G s s' \<Longrightarrow> G i = None \<Longrightarrow> i \<noteq> 1 \<Longrightarrow> unc s i \<Longrightarrow> unc s' i"
  by (simp add: quiet_def unc_def)

lemma unc_remember: "i \<noteq> j \<Longrightarrow> unc (remember b j r s) i = unc s i"
  by (simp add: unc_def remember_def)

lemma unc_misc [simp]:
  "unc (s\<lparr>evals := e\<rparr>) i = unc s i"
  "unc (s\<lparr>nextPair := a\<rparr>) i = unc s i"
  "unc (s\<lparr>thunkId := j\<rparr>) i = unc s i"
  "unc (s\<lparr>tvars := tv\<rparr>) i = unc s i"
  "unc (s\<lparr>uvars := uv\<rparr>) i = unc s i"
  by (simp_all add: unc_def)

lemma unc_fresh: "inv G B s \<Longrightarrow> thunkId s < i \<Longrightarrow> unc s i"
  by (simp add: unc_def inv_fresh_None)

lemma force_fresh_unc:
  assumes "unc s j"
  shows "force fe (Suc k) (Thunk j f) c s =
     bnd (call fe k f c (s\<lparr>evals := j # evals s\<rparr>)) (\<lambda>r s'. ret r (remember (memo s) j r s'))"
  using assms unfolding unc_def by (rule force_fresh)

lemma remember_fields [simp]:
  "thunkId (remember b j r s) = thunkId s"
  "memo (remember b j r s) = memo s"
  "tvars (remember b j r s) = tvars s"
  "uvars (remember b j r s) = uvars s"
  by (simp_all add: remember_def)

lemma quiet_misc [simp]:
  "quiet G (s\<lparr>evals := e\<rparr>) s' = quiet G s s'"
  by (simp add: quiet_def)

lemma Equals_step_nil:
  assumes "force fe n thunk VNil s = ret None s1"
    and "force fe n other VNil s1 = ret None s2"
  shows "Equals fe (Suc n) thunk other s = ret True s2"
  using assms by (simp del: force.simps)

lemma chain_Empty [simp]: "chain G Empty []"
  by simp

lemma cost_simps [simp]: "cost [] = 0" "cost (x # xs) = Suc (weight x + cost xs)"
  by (simp_all add: cost_def)

lemma plain_Empty [simp]: "plain_list G Empty" "weight_list Empty = 0"
  by (simp_all add: Empty_def)

lemma length_le_cost: "length xs \<le> cost xs"
  by (simp add: cost_def)

lemma plain_chain:
  "plain_list G t \<Longrightarrow> \<exists>xs. chain G t xs \<and> (\<forall>x \<in> set xs. plain G x) \<and> cost xs = weight_list t"
proof (induction "size t" arbitrary: t rule: less_induct)
  case less
  show ?case
  proof (cases t)
    case NilThunk
    then have "chain G t [] \<and> (\<forall>x \<in> set []. plain G x) \<and> cost [] = weight_list t" by simp
    then show ?thesis by blast
  next
    case (Thunk i f)
    show ?thesis
    proof (cases f)
      case (LinkF x t')
      with Thunk less.prems have g: "G i = Some (x, t')" "plain G x" "plain_list G t'" by simp_all
      have "size t' < size t" using Thunk LinkF by simp
      from less.hyps[OF this g(3)] obtain xs where
        "chain G t' xs" "\<forall>x \<in> set xs. plain G x" "cost xs = weight_list t'" by blast
      with g Thunk LinkF
      have "chain G t (x # xs) \<and> (\<forall>y \<in> set (x # xs). plain G y) \<and> cost (x # xs) = weight_list t"
        by simp
      then show ?thesis by blast
    next
      case EmptyF
      with Thunk less.prems
      have "chain G t [] \<and> (\<forall>x \<in> set []. plain G x) \<and> cost [] = weight_list t"
        by (simp add: Empty_def)
      then show ?thesis by blast
    qed (use Thunk less.prems in \<open>simp_all add: Empty_def\<close>)
  qed
qed

lemma Equals_chains:
  assumes "inv G B s" and "chain G u xs" and "chain G w xs" and "\<forall>x \<in> set xs. plain G x"
    and "cost xs + 3 \<le> k"
  shows "\<exists>s'. Equals fe k u w s = ret True s' \<and> inv G B s' \<and> quiet G s s'"
  using assms
proof (induction k arbitrary: u w xs s)
  case 0
  then show ?case by simp
next
  case (Suc n)
  show ?case
  proof (cases xs)
    case Nil
    with Suc.prems have n: "2 \<le> n" and cu: "chain G u []" and cw: "chain G w []" by simp_all
    from force_chain_Nil[OF Suc.prems(1) cu n, of fe VNil] obtain s1 where
      f1: "force fe n u VNil s = ret None s1" and i1: "inv G B s1" and q1: "quiet G s s1"
      by blast
    from force_chain_Nil[OF i1 cw n, of fe VNil] obtain s2 where
      f2: "force fe n w VNil s1 = ret None s2" and i2: "inv G B s2" and q2: "quiet G s1 s2"
      by blast
    from Equals_step_nil[OF f1 f2] i2 quiet_trans[OF q1 q2] show ?thesis by simp
  next
    case (Cons x xs')
    with Suc.prems have n: "2 \<le> n" and cu: "chain G u (x # xs')" and cw: "chain G w (x # xs')"
      and px: "plain G x" and pxs: "\<forall>y \<in> set xs'. plain G y"
      and fx: "weight x + 3 \<le> n" and fxs: "cost xs' + 3 \<le> n" by simp_all
    from force_chain_Cons[OF Suc.prems(1) cu n, of fe VNil] obtain a u' s1 where
      f1: "force fe n u VNil s = ret (Some (MkPair a x u')) s1" and c1: "chain G u' xs'"
      and i1: "inv G B s1" and q1: "quiet G s s1" by blast
    from force_chain_Cons[OF i1 cw n, of fe VNil] obtain b w' s2 where
      f2: "force fe n w VNil s1 = ret (Some (MkPair b x w')) s2" and c2: "chain G w' xs'"
      and i2: "inv G B s2" and q2: "quiet G s1 s2" by blast
    have "\<exists>s3. Equals fe (Suc n) u w s = Equals fe n u' w' s3 \<and> inv G B s3 \<and> quiet G s2 s3"
    proof (cases x)
      case (VThunk h)
      with px have "plain_list G h" by simp
      from plain_chain[OF this] obtain zs where z: "chain G h zs" "\<forall>z \<in> set zs. plain G z"
        and cz: "cost zs = weight_list h" by blast
      have "cost zs + 3 \<le> n" using cz fx VThunk by simp
      from Suc.IH[OF i2 z(1) z(1) z(2) this] obtain s3 where
        e: "Equals fe n h h s2 = ret True s3" and i3: "inv G B s3" and q3: "quiet G s2 s3"
        by blast
      have "Equals fe (Suc n) u w s = Equals fe n u' w' s3"
        using f1 f2 e VThunk by (simp del: force.simps)
      with i3 q3 show ?thesis by blast
    next
      case (VSlice ty ys)
      with px show ?thesis by simp
    next
      case (VNaN fk)
      with px show ?thesis by simp
    qed (use f1 f2 i2 in \<open>auto simp del: force.simps\<close>)
    then obtain s3 where st: "Equals fe (Suc n) u w s = Equals fe n u' w' s3"
      and i3: "inv G B s3" and q3: "quiet G s2 s3" by blast
    from Suc.IH[OF i3 c1 c2 pxs fxs] obtain s' where
      "Equals fe n u' w' s3 = ret True s'" "inv G B s'" "quiet G s3 s'" by blast
    with st quiet_trans[OF quiet_trans[OF q1 q2] quiet_trans[OF q3]] show ?thesis by auto
  qed
qed

lemma Equals_step_plain:
  assumes "plain G x" and "inv G B s2" and "weight x + 3 \<le> n"
    and f1: "force fe n thunk VNil s = ret (Some (MkPair a x t1)) s1"
    and f2: "force fe n other VNil s1 = ret (Some (MkPair b x t2)) s2"
  shows "\<exists>s3. Equals fe (Suc n) thunk other s = Equals fe n t1 t2 s3 \<and> inv G B s3 \<and> quiet G s2 s3"
proof (cases x)
  case (VThunk h)
  with assms(1) have "plain_list G h" by simp
  from plain_chain[OF this] obtain zs where z: "chain G h zs" "\<forall>z \<in> set zs. plain G z"
    and cz: "cost zs = weight_list h" by blast
  have "cost zs + 3 \<le> n" using cz assms(3) VThunk by simp
  from Equals_chains[OF assms(2) z(1) z(1) z(2) this] obtain s3 where
    e: "Equals fe n h h s2 = ret True s3" and i3: "inv G B s3" and q3: "quiet G s2 s3"
    by blast
  have "Equals fe (Suc n) thunk other s = Equals fe n t1 t2 s3"
    using f1 f2 e VThunk by (simp del: force.simps)
  with i3 q3 show ?thesis by blast
next
  case (VSlice ty ys)
  with assms(1) show ?thesis by simp
next
  case (VNaN fk)
  with assms(1) show ?thesis by simp
qed (use f1 f2 assms(2) in \<open>auto simp del: force.simps\<close>)

lemma Equals_Append_Empty:
  assumes "inv G B s" and "chain G u xs" and "chain G w xs" and "\<forall>x \<in> set xs. plain G x"
    and "B < ja" and "ja \<le> thunkId s" and "unc s ja"
    and "thunkId s + length xs < 2 ^ 64" and "cost xs + 5 \<le> k"
  shows "\<exists>s'. Equals fe k (Thunk ja (AppendF u Empty)) w s = ret True s' \<and> inv G B s'"
  using assms
proof (induction xs arbitrary: u w ja s k)
  case Nil
  define k3 where "k3 = k - 3"
  with Nil.prems(9) have k: "k = Suc (Suc (Suc k3))" "2 \<le> k3" by simp_all
  define s0 where "s0 = s\<lparr>evals := ja # evals s\<rparr>"
  have i0: "inv G B s0" using Nil.prems(1) by (simp add: s0_def)
  from force_chain_Nil[OF i0 Nil.prems(2) k(2), of fe VNil] obtain s1 where
    f1: "force fe k3 u VNil s0 = ret None s1" and i1: "inv G B s1" and q1: "quiet G s0 s1"
    by blast
  from force_chain_Nil[OF i1 chain_Empty k(2), of fe VNil] obtain s2 where
    f2: "force fe k3 Empty VNil s1 = ret None s2" and i2: "inv G B s2" and q2: "quiet G s1 s2"
    by blast
  have t2: "thunkId s2 = thunkId s" using q1 q2 by (simp add: quiet_def s0_def)
  define s3 where "s3 = remember (memo s) ja None s2"
  have cl: "call fe (Suc k3) (AppendF u Empty) VNil s0 = ret None s2"
    using f1 f2 by (simp del: force.simps)
  have fa: "force fe (Suc (Suc k3)) (Thunk ja (AppendF u Empty)) VNil s = ret None s3"
    using cl by (simp add: force_fresh_unc[OF Nil.prems(7)] s0_def s3_def del: force.simps call.simps)
  have i3: "inv G B s3"
    unfolding s3_def using i2 Nil.prems(5,6) t2 by (intro inv_remember) simp_all
  have "2 \<le> Suc (Suc k3)" by simp
  from force_chain_Nil[OF i3 Nil.prems(3) this, of fe VNil] obtain s4 where
    f4: "force fe (Suc (Suc k3)) w VNil s3 = ret None s4" and i4: "inv G B s4" by blast
  from Equals_step_nil[OF fa f4] i4 show ?case by (simp add: k)
next
  case (Cons x xs)
  define k3 where "k3 = k - 3"
  with Cons.prems(9) have k: "k = Suc (Suc (Suc k3))" "2 \<le> k3" by simp_all
  define s0 where "s0 = s\<lparr>evals := ja # evals s\<rparr>"
  have i0: "inv G B s0" using Cons.prems(1) by (simp add: s0_def)
  from force_chain_Cons[OF i0 Cons.prems(2) k(2), of fe VNil] obtain a u' s1 where
    f1: "force fe k3 u VNil s0 = ret (Some (MkPair a x u')) s1" and c1: "chain G u' xs"
    and i1: "inv G B s1" and q1: "quiet G s0 s1" by blast
  have t1: "thunkId s1 = thunkId s" using q1 by (simp add: quiet_def s0_def)
  define ja' where "ja' = thunkId s + 1"
  define p where "p = Some (MkPair (nextPair s1) x (Thunk ja' (AppendF u' Empty)))"
  define s3 where "s3 = s1\<lparr>thunkId := ja', nextPair := nextPair s1 + 1\<rparr>"
  define s4 where "s4 = remember (memo s) ja p s3"
  have ap: "Append u' Empty s1 = (Thunk ja' (AppendF u' Empty), s1\<lparr>thunkId := ja'\<rparr>)"
    using Cons.prems(8) t1 by (simp add: Append_def nextId_nowrap ja'_def)
  have cl: "call fe (Suc k3) (AppendF u Empty) VNil s0 = ret p s3"
    using f1 ap by (simp add: newPair_def p_def s3_def del: force.simps)
  have fa: "force fe (Suc (Suc k3)) (Thunk ja (AppendF u Empty)) VNil s = ret p s4"
    using cl by (simp add: force_fresh_unc[OF Cons.prems(7)] s0_def s4_def del: force.simps call.simps)
  have i3: "inv G B s3" using i1 t1 by (simp add: s3_def ja'_def inv_alloc)
  have i4: "inv G B s4"
    unfolding s4_def using i3 Cons.prems(5,6) by (intro inv_remember) (simp_all add: s3_def ja'_def)
  have "2 \<le> Suc (Suc k3)" by simp
  from force_chain_Cons[OF i4 Cons.prems(3) this, of fe VNil] obtain b w' s5 where
    f5: "force fe (Suc (Suc k3)) w VNil s4 = ret (Some (MkPair b x w')) s5" and c5: "chain G w' xs"
    and i5: "inv G B s5" and q5: "quiet G s4 s5" by blast
  have cx: "plain G x" using Cons.prems(4) by simp
  have wx: "weight x + 3 \<le> Suc (Suc k3)" using Cons.prems(9) k by simp
  from Equals_step_plain[OF cx i5 wx fa[unfolded p_def] f5] obtain s6 where
    st': "Equals fe (Suc (Suc (Suc k3))) (Thunk ja (AppendF u Empty)) w s
        = Equals fe (Suc (Suc k3)) (Thunk ja' (AppendF u' Empty)) w' s6"
    and i6: "inv G B s6" and q56: "quiet G s5 s6" by blast
  have st: "Equals fe k (Thunk ja (AppendF u Empty)) w s
        = Equals fe (Suc (Suc k3)) (Thunk ja' (AppendF u' Empty)) w' s6"
    unfolding k using st' .
  have q6: "quiet G s4 s6" using q5 q56 by (rule quiet_trans)
  have t5: "thunkId s6 = ja'" using q6 by (simp add: quiet_def s4_def s3_def)
  have Bj: "B < ja'" using Cons.prems(5,6) by (simp add: ja'_def)
  have "unc s1 ja'" using i1 t1 by (intro unc_fresh) (simp_all add: ja'_def)
  then have "unc s4 ja'" using Cons.prems(6) by (simp add: s4_def s3_def unc_remember ja'_def)
  moreover have "ja' \<noteq> 1" using Bj i4 by (simp add: inv_def)
  ultimately have u5: "unc s6 ja'"
    using q6 inv_G_None[OF i4 Bj] by (intro unc_quiet[of G s4 s6]) simp_all
  have bud: "thunkId s6 + length xs < 2 ^ 64" using Cons.prems(8) by (simp add: t5 ja'_def)
  have fuel: "cost xs + 5 \<le> Suc (Suc k3)" using Cons.prems(9) k by simp
  from Cons.IH[OF i6 c1 c5 _ Bj _ u5 bud fuel] Cons.prems(4) t5
  obtain s' where "Equals fe (Suc (Suc k3)) (Thunk ja' (AppendF u' Empty)) w' s6 = ret True s'"
    and "inv G B s'" by auto
  with st show ?case by auto
qed


lemma getT_upd [simp]:
  "tv < length (tvars s) \<Longrightarrow> getT (s\<lparr>uvars := us, tvars := (tvars s)[tv := t]\<rparr>) tv = t"
  by (simp add: getT_def)

lemma getU_upd [simp]:
  "uv < length (uvars s) \<Longrightarrow> getU (s\<lparr>uvars := (uvars s)[uv := n], tvars := ts\<rparr>) uv = n"
  by (simp add: getU_def)

lemma quiet_get: "quiet G s s' \<Longrightarrow> getT s' tv = getT s tv \<and> getU s' uv = getU s uv"
  by (simp add: quiet_def getT_def getU_def)

lemma call_Drop:
  assumes "inv G B s" and "chain G (getT s tv) xs"
    and "tv < length (tvars s)" and "uv < length (uvars s)" and "length xs + 3 \<le> k"
  shows "\<exists>s'. inv G B s' \<and> thunkId s' = thunkId s \<and> memo s' = memo s
           \<and> (\<forall>i. G i = None \<longrightarrow> i \<noteq> 1 \<longrightarrow> memoTable s' i = memoTable s i)
           \<and> (case drop (unat (getU s uv)) xs of
                 [] \<Rightarrow> call fe k (DropF tv uv) c s = ret None s'
               | y # ys \<Rightarrow> \<exists>a t'. call fe k (DropF tv uv) c s = ret (Some (MkPair a y t')) s'
                              \<and> chain G t' ys)"
  using assms
proof (induction xs arbitrary: s k c)
  case Nil
  define k1 where "k1 = k - 1"
  with Nil.prems(5) have k: "k = Suc k1" "2 \<le> k1" by simp_all
  from force_chain_Nil[OF Nil.prems(1,2) k(2), of fe VNil] obtain s1 where
    f: "force fe k1 (getT s tv) VNil s = ret None s1" and i1: "inv G B s1" and q: "quiet G s s1"
    by blast
  have "call fe k (DropF tv uv) c s = ret None s1" using f by (simp add: k del: force.simps)
  with i1 q show ?case by (intro exI[of _ s1]) (simp add: quiet_def)
next
  case (Cons x xs)
  define k1 where "k1 = k - 1"
  with Cons.prems(5) have k: "k = Suc k1" "2 \<le> k1" "length xs + 3 \<le> k1" by simp_all
  from force_chain_Cons[OF Cons.prems(1,2) k(2), of fe VNil] obtain a l' s1 where
    f: "force fe k1 (getT s tv) VNil s = ret (Some (MkPair a x l')) s1" and c1: "chain G l' xs"
    and i1: "inv G B s1" and q: "quiet G s s1" by blast
  from q have g1: "getU s1 uv = getU s uv" and tv1: "tvars s1 = tvars s" and uv1: "uvars s1 = uvars s"
    by (simp_all add: quiet_def getU_def)
  show ?case
  proof (cases "getU s uv = 0")
    case True
    then have "call fe k (DropF tv uv) c s = ret (Some (MkPair a x l')) s1"
      using f g1 by (simp add: k del: force.simps)
    with True i1 q c1 show ?thesis by (intro exI[of _ s1]) (simp add: quiet_def)
  next
    case False
    then have pos: "0 < getU s uv" by (simp add: word_greater_zero_iff)
    then have un: "unat (getU s uv) = Suc (unat (getU s uv - 1))"
      by (metis False Suc_pred' unat_gt_0 unat_minus_one)
    define s2 where "s2 = s1\<lparr>uvars := (uvars s1)[uv := getU s1 uv - 1],
                             tvars := (tvars s1)[tv := l']\<rparr>"
    have i2: "inv G B s2" using i1 by (simp add: s2_def)
    have gt2: "getT s2 tv = l'" using Cons.prems(3) tv1 by (simp add: s2_def getT_def)
    have gu2: "getU s2 uv = getU s uv - 1" using Cons.prems(4) uv1 g1 by (simp add: s2_def getU_def)
    have l2: "tv < length (tvars s2)" "uv < length (uvars s2)"
      using Cons.prems(3,4) tv1 uv1 by (simp_all add: s2_def)
    have c2: "chain G (getT s2 tv) xs" using c1 gt2 by simp
    from Cons.IH[OF i2 c2 l2 k(3), of VNil] obtain s' where
      i': "inv G B s'" and t': "thunkId s' = thunkId s2" and m': "memo s' = memo s2"
      and fr: "\<forall>i. G i = None \<longrightarrow> i \<noteq> 1 \<longrightarrow> memoTable s' i = memoTable s2 i"
      and r: "case drop (unat (getU s2 uv)) xs of
                 [] \<Rightarrow> call fe k1 (DropF tv uv) VNil s2 = ret None s'
               | y # ys \<Rightarrow> \<exists>a t'. call fe k1 (DropF tv uv) VNil s2 = ret (Some (MkPair a y t')) s'
                              \<and> chain G t' ys" by blast
    have st: "call fe k (DropF tv uv) c s = call fe k1 (DropF tv uv) VNil s2"
      using f g1 pos by (simp add: k s2_def del: force.simps call.simps add: call.simps(2)[of fe k1])
    have dr: "drop (unat (getU s uv)) (x # xs) = drop (unat (getU s2 uv)) xs"
      using un gu2 by simp
    have "thunkId s' = thunkId s" "memo s' = memo s"
      using t' m' q by (simp_all add: s2_def quiet_def)
    moreover have "\<forall>i. G i = None \<longrightarrow> i \<noteq> 1 \<longrightarrow> memoTable s' i = memoTable s i"
      using fr q by (simp add: s2_def quiet_def)
    ultimately show ?thesis using i' r unfolding st dr by (intro exI[of _ s']) simp
  qed
qed


lemma frame_quiet: "quiet G s s' \<Longrightarrow> frame G J s s'"
  by (simp add: quiet_def frame_def)

lemma frame_trans: "frame G J a b \<Longrightarrow> frame G K b c \<Longrightarrow> frame G (J \<union> K) a c"
  by (simp add: frame_def)

lemma frame_refl [simp]: "frame G J s s"
  by (simp add: frame_def)

lemma frame_misc [simp]:
  "frame G J s (s'\<lparr>evals := e\<rparr>) = frame G J s s'"
  "frame G J s (s'\<lparr>nextPair := a\<rparr>) = frame G J s s'"
  "frame G J s (s'\<lparr>thunkId := j\<rparr>) = frame G J s s'"
  "frame G J (s\<lparr>evals := e\<rparr>) s' = frame G J s s'"
  by (simp_all add: frame_def)

lemma frame_remember: "j \<in> J \<Longrightarrow> frame G J s s' \<Longrightarrow> frame G J s (remember b j r s')"
  by (auto simp: frame_def remember_def)

lemma unc_frame:
  "frame G J s s' \<Longrightarrow> i \<notin> J \<Longrightarrow> G i = None \<Longrightarrow> i \<noteq> 1 \<Longrightarrow> unc s i \<Longrightarrow> unc s' i"
  by (simp add: frame_def unc_def)

lemma frame_get: "frame G J s s' \<Longrightarrow> getT s' tv = getT s tv \<and> getU s' uv = getU s uv"
  by (simp add: frame_def getT_def getU_def)

lemma force_Take:
  assumes "inv G B s" and "chain G l xs" and "B < jt" and "jt \<le> thunkId s" and "unc s jt"
    and "thunkId s + 1 < 2 ^ 64" and "4 \<le> k"
  shows "\<exists>s'. inv G B s' \<and> frame G {jt} s s' \<and>
     (if n = 0 \<or> xs = []
      then force fe k (Thunk jt (TakeF l n)) c s = ret None s' \<and> thunkId s' = thunkId s
      else \<exists>a l'. force fe k (Thunk jt (TakeF l n)) c s
              = ret (Some (MkPair a (hd xs) (Thunk (thunkId s + 1) (TakeF l' (n - 1))))) s'
            \<and> chain G l' (tl xs) \<and> thunkId s' = thunkId s + 1)"
proof -
  define k2 where "k2 = k - 2"
  with assms(7) have k: "k = Suc (Suc k2)" "2 \<le> k2" by simp_all
  define s0 where "s0 = s\<lparr>evals := jt # evals s\<rparr>"
  have i0: "inv G B s0" using assms(1) by (simp add: s0_def)
  have ff: "force fe k (Thunk jt (TakeF l n)) c s =
     bnd (call fe (Suc k2) (TakeF l n) c s0) (\<lambda>r s'. ret r (remember (memo s) jt r s'))"
    unfolding k s0_def by (rule force_fresh_unc[OF assms(5)])
  show ?thesis
  proof (cases "n = 0")
    case True
    have "force fe k (Thunk jt (TakeF l n)) c s = ret None (remember (memo s) jt None s0)"
      unfolding ff using True by simp
    moreover have "inv G B (remember (memo s) jt None s0)"
      using i0 assms(3,4) by (intro inv_remember) (simp_all add: s0_def)
    moreover have "frame G {jt} s (remember (memo s) jt None s0)"
      by (intro frame_remember) (simp_all add: s0_def)
    ultimately show ?thesis using True by (intro exI[of _ "remember (memo s) jt None s0"]) (simp add: s0_def)
  next
    case False
    then have n: "0 < n" by (simp add: word_greater_zero_iff)
    show ?thesis
    proof (cases xs)
      case Nil
      with assms(2) have c: "chain G l []" by simp
      from force_chain_Nil[OF i0 c k(2), of fe VNil] obtain s1 where
        f: "force fe k2 l VNil s0 = ret None s1" and i1: "inv G B s1" and q: "quiet G s0 s1"
        by blast
      have t1: "thunkId s1 = thunkId s" using q by (simp add: quiet_def s0_def)
      have "force fe k (Thunk jt (TakeF l n)) c s = ret None (remember (memo s) jt None s1)"
        unfolding ff using n f by (simp del: force.simps)
      moreover have "inv G B (remember (memo s) jt None s1)"
        using i1 assms(3,4) t1 by (intro inv_remember) simp_all
      moreover have "frame G {jt} s s1" using q by (simp add: quiet_def frame_def s0_def)
      then have "frame G {jt} s (remember (memo s) jt None s1)"
        by (intro frame_remember) simp_all
      ultimately show ?thesis using Nil t1
        by (intro exI[of _ "remember (memo s) jt None s1"]) simp
    next
      case (Cons x xs')
      with assms(2) have c: "chain G l (x # xs')" by simp
      from force_chain_Cons[OF i0 c k(2), of fe VNil] obtain a l' s1 where
        f: "force fe k2 l VNil s0 = ret (Some (MkPair a x l')) s1" and c1: "chain G l' xs'"
        and i1: "inv G B s1" and q: "quiet G s0 s1" by blast
      have t1: "thunkId s1 = thunkId s" using q by (simp add: quiet_def s0_def)
      define jt' where "jt' = thunkId s + 1"
      define p where "p = Some (MkPair (nextPair s1) x (Thunk jt' (TakeF l' (n - 1))))"
      define s3 where "s3 = s1\<lparr>thunkId := jt', nextPair := nextPair s1 + 1\<rparr>"
      define s4 where "s4 = remember (memo s) jt p s3"
      have tk: "Take l' (n - 1) s1 = (Thunk jt' (TakeF l' (n - 1)), s1\<lparr>thunkId := jt'\<rparr>)"
        using assms(6) t1 by (simp add: Take_def nextId_nowrap jt'_def)
      have "call fe (Suc k2) (TakeF l n) c s0 = ret p s3"
        using n f tk by (simp add: newPair_def p_def s3_def del: force.simps)
      then have fr: "force fe k (Thunk jt (TakeF l n)) c s = ret p s4"
        unfolding ff by (simp add: s4_def del: force.simps call.simps)
      have i3: "inv G B s3" using i1 t1 by (simp add: s3_def jt'_def inv_alloc)
      have i4: "inv G B s4"
        unfolding s4_def using i3 assms(3,4) by (intro inv_remember) (simp_all add: s3_def jt'_def)
      have "frame G {jt} s s1" using q by (simp add: quiet_def frame_def s0_def)
      then have f4: "frame G {jt} s s4"
        unfolding s4_def by (intro frame_remember) (simp_all add: s3_def)
      have t4: "thunkId s4 = thunkId s + 1" by (simp add: s4_def s3_def jt'_def)
      show ?thesis using False Cons fr i4 f4 t4 c1
        by (intro exI[of _ s4]) (auto simp: p_def jt'_def)
    qed
  qed
qed

lemma force_Drop:
  assumes "inv G B s" and "chain G (getT s tv) xs"
    and "tv < length (tvars s)" and "uv < length (uvars s)"
    and "B < jd" and "jd \<le> thunkId s" and "unc s jd" and "length xs + 4 \<le> k"
  shows "\<exists>s'. inv G B s' \<and> thunkId s' = thunkId s \<and> memo s' = memo s
           \<and> (\<forall>i. i \<noteq> jd \<longrightarrow> G i = None \<longrightarrow> i \<noteq> 1 \<longrightarrow> memoTable s' i = memoTable s i)
           \<and> (case drop (unat (getU s uv)) xs of
                 [] \<Rightarrow> force fe k (Thunk jd (DropF tv uv)) c s = ret None s'
               | y # ys \<Rightarrow> \<exists>a t'. force fe k (Thunk jd (DropF tv uv)) c s
                                = ret (Some (MkPair a y t')) s' \<and> chain G t' ys)"
proof -
  define k1 where "k1 = k - 1"
  with assms(8) have k: "k = Suc k1" "length xs + 3 \<le> k1" by simp_all
  define s0 where "s0 = s\<lparr>evals := jd # evals s\<rparr>"
  have i0: "inv G B s0" using assms(1) by (simp add: s0_def)
  have g0: "getT s0 tv = getT s tv" "getU s0 uv = getU s uv"
    by (simp_all add: s0_def getT_def getU_def)
  have ff: "force fe k (Thunk jd (DropF tv uv)) c s =
     bnd (call fe k1 (DropF tv uv) c s0) (\<lambda>r s'. ret r (remember (memo s) jd r s'))"
    unfolding k s0_def by (rule force_fresh_unc[OF assms(7)])
  have c0: "chain G (getT s0 tv) xs" using assms(2) g0 by simp
  have l0: "tv < length (tvars s0)" "uv < length (uvars s0)" using assms(3,4) by (simp_all add: s0_def)
  from call_Drop[OF i0 c0 l0 k(2), of fe c] obtain s1 where
    i1: "inv G B s1" and t1: "thunkId s1 = thunkId s0" and m1: "memo s1 = memo s0"
    and fr: "\<forall>i. G i = None \<longrightarrow> i \<noteq> 1 \<longrightarrow> memoTable s1 i = memoTable s0 i"
    and r: "case drop (unat (getU s0 uv)) xs of
                 [] \<Rightarrow> call fe k1 (DropF tv uv) c s0 = ret None s1
               | y # ys \<Rightarrow> \<exists>a t'. call fe k1 (DropF tv uv) c s0 = ret (Some (MkPair a y t')) s1
                              \<and> chain G t' ys" by blast
  have inv_r: "inv G B (remember (memo s) jd p s1)" for p
    using i1 assms(5,6) t1 by (intro inv_remember) (simp_all add: s0_def)
  have fr_r: "\<forall>i. i \<noteq> jd \<longrightarrow> G i = None \<longrightarrow> i \<noteq> 1 \<longrightarrow> memoTable (remember (memo s) jd p s1) i = memoTable s i" for p
    using fr by (simp add: remember_def s0_def)
  show ?thesis
  proof (cases "drop (unat (getU s uv)) xs")
    case Nil
    with r g0 have "call fe k1 (DropF tv uv) c s0 = ret None s1" by simp
    then have "force fe k (Thunk jd (DropF tv uv)) c s = ret None (remember (memo s) jd None s1)"
      unfolding ff by (simp del: force.simps call.simps)
    with Nil inv_r[of None] fr_r[of None] t1 m1 show ?thesis
      by (intro exI[of _ "remember (memo s) jd None s1"]) (simp add: s0_def)
  next
    case (Cons y ys)
    with r g0 obtain a t' where cl: "call fe k1 (DropF tv uv) c s0 = ret (Some (MkPair a y t')) s1"
      and ch: "chain G t' ys" by auto
    from cl have "force fe k (Thunk jd (DropF tv uv)) c s
        = ret (Some (MkPair a y t')) (remember (memo s) jd (Some (MkPair a y t')) s1)"
      unfolding ff by (simp del: force.simps call.simps)
    with Cons ch inv_r[of "Some (MkPair a y t')"] fr_r[of "Some (MkPair a y t')"] t1 m1 show ?thesis
      by (intro exI[of _ "remember (memo s) jd (Some (MkPair a y t')) s1"]) (auto simp: s0_def)
  qed
qed


lemma frame_mono: "J \<subseteq> K \<Longrightarrow> frame G J s s' \<Longrightarrow> frame G K s s'"
  by (auto simp: frame_def)

lemma inv_not_one: "inv G B s \<Longrightarrow> B < i \<Longrightarrow> i \<noteq> 1"
  by (auto simp: inv_def)

lemma Equals_Take_exhausted:
  assumes I: "inv G B s" and cw: "chain G wm xs"
    and cm: "chain G lm xs"
    and c0: "chain G (getT s tv) xs0"
    and rng: "tv < length (tvars s)" "uv < length (uvars s)"
    and rel: "drop (unat (getU s uv)) xs0 = drop (unat nm) xs"
    and flat: "\<forall>x \<in> set xs. plain G x"
    and jt: "B < jt" "jt \<le> thunkId s" "unc s jt"
    and jd: "B < jd" "jd \<le> thunkId s" "unc s jd"
    and ja: "B < ja" "ja \<le> thunkId s" "unc s ja"
    and ne: "jt \<noteq> ja" "jd \<noteq> ja" "jd \<noteq> jt"
    and bud: "thunkId s + 2 * length xs + 2 < 2 ^ 64"
    and fuel: "length xs0 + cost xs + 8 \<le> k"
    and ex: "nm = 0 \<or> xs = []"
  shows "\<exists>s'. Equals fe k (Thunk ja (AppendF (Thunk jt (TakeF lm nm)) (Thunk jd (DropF tv uv)))) wm s
             = ret True s'"
proof -
  define k3 where "k3 = k - 3"
  with fuel have k: "k = Suc (Suc (Suc k3))" "4 \<le> k3" "length xs0 + 4 \<le> k3"
    "cost xs + 5 \<le> Suc (Suc k3)" by simp_all
  let ?T = "Thunk jt (TakeF lm nm)"
  let ?D = "Thunk jd (DropF tv uv)"
  define s0 where "s0 = s\<lparr>evals := ja # evals s\<rparr>"
  have i0: "inv G B s0" using I by (simp add: s0_def)
  have ffA: "force fe (Suc (Suc k3)) (Thunk ja (AppendF ?T ?D)) VNil s =
     bnd (call fe (Suc k3) (AppendF ?T ?D) VNil s0) (\<lambda>r s'. ret r (remember (memo s) ja r s'))"
    unfolding s0_def by (rule force_fresh_unc[OF ja(3)])
  have "thunkId s0 + 1 < 2 ^ 64" using bud by (simp add: s0_def)
  moreover have "jt \<le> thunkId s0" "unc s0 jt" using jt by (simp_all add: s0_def)
  ultimately obtain sT where iT: "inv G B sT" and fT: "frame G {jt} s0 sT"
    and rT': "force fe k3 ?T VNil s0 = ret None sT \<and> thunkId sT = thunkId s0"
    using force_Take[OF i0 cm jt(1) _ _ _ k(2), where fe = fe and n = nm and c = VNil] ex
    by (metis (no_types, lifting))
  from rT' have rT: "force fe k3 ?T VNil s0 = ret None sT" and tT: "thunkId sT = thunkId s"
    by (simp_all add: s0_def)
  have Gd: "G jd = None" "jd \<noteq> 1" using inv_G_None[OF I jd(1)] inv_not_one[OF I jd(1)] by simp_all
  have gT: "getT sT tv = getT s tv" "getU sT uv = getU s uv"
    using frame_get[OF fT] by (simp_all add: s0_def getT_def getU_def)
  have vT: "tvars sT = tvars s" "uvars sT = uvars s" using fT by (simp_all add: frame_def s0_def)
  have uT: "unc sT jd" using ne jd(3) Gd by (intro unc_frame[OF fT]) (simp_all add: s0_def)
  have cT: "chain G (getT sT tv) xs0" using c0 gT by simp
  have rT2: "tv < length (tvars sT)" "uv < length (uvars sT)" "jd \<le> thunkId sT"
    using rng vT jd(2) tT by simp_all
  from force_Drop[OF iT cT rT2(1,2) jd(1) rT2(3) uT k(3), where fe = fe and c = VNil]
  obtain sD where iD: "inv G B sD" and tD': "thunkId sD = thunkId sT"
    and rD: "case drop (unat (getU sT uv)) xs0 of
                 [] \<Rightarrow> force fe k3 ?D VNil sT = ret None sD
               | y # ys \<Rightarrow> \<exists>a t'. force fe k3 ?D VNil sT = ret (Some (MkPair a y t')) sD
                              \<and> chain G t' ys"
    by blast
  have tD: "thunkId sD = thunkId s" using tD' tT by simp
  have k1: "2 \<le> Suc (Suc k3)" by simp
  show ?thesis
  proof (cases "drop (unat nm) xs")
    case Nil
    with ex have xs: "xs = []" by auto
    from rD Nil rel gT have fD: "force fe k3 ?D VNil sT = ret None sD" by simp
    define sA where "sA = remember (memo s) ja None sD"
    have "call fe (Suc k3) (AppendF ?T ?D) VNil s0 = ret None sD"
      using rT fD by (simp del: force.simps)
    then have fA: "force fe (Suc (Suc k3)) (Thunk ja (AppendF ?T ?D)) VNil s = ret None sA"
      unfolding ffA by (simp add: sA_def del: force.simps call.simps)
    have iA: "inv G B sA" unfolding sA_def using iD ja(1,2) tD by (intro inv_remember) simp_all
    from cw xs have "chain G wm []" by simp
    from force_chain_Nil[OF iA this k1, of fe VNil] obtain s5 where
      "force fe (Suc (Suc k3)) wm VNil sA = ret None s5" by blast
    from Equals_step_nil[OF fA this] show ?thesis by (auto simp: k)
  next
    case (Cons y ys)
    with ex have nm: "nm = 0" and xs: "xs = y # ys" by auto
    from rD Cons rel gT obtain a t' where
      fD: "force fe k3 ?D VNil sT = ret (Some (MkPair a y t')) sD" and ct: "chain G t' ys" by auto
    define ja' where "ja' = thunkId s + 1"
    define p where "p = Some (MkPair (nextPair sD) y (Thunk ja' (AppendF t' Empty)))"
    define sP where "sP = sD\<lparr>thunkId := ja', nextPair := nextPair sD + 1\<rparr>"
    define sA where "sA = remember (memo s) ja p sP"
    have ap: "Append t' Empty sD = (Thunk ja' (AppendF t' Empty), sD\<lparr>thunkId := ja'\<rparr>)"
      using bud tD by (simp add: Append_def nextId_nowrap ja'_def)
    have "call fe (Suc k3) (AppendF ?T ?D) VNil s0 = ret p sP"
      using rT fD ap by (simp add: newPair_def p_def sP_def del: force.simps)
    then have fA: "force fe (Suc (Suc k3)) (Thunk ja (AppendF ?T ?D)) VNil s = ret p sA"
      unfolding ffA by (simp add: sA_def del: force.simps call.simps)
    have iP: "inv G B sP" using iD tD by (simp add: sP_def ja'_def inv_alloc)
    have iA: "inv G B sA" unfolding sA_def using iP ja(1,2) by (intro inv_remember) (simp_all add: sP_def ja'_def)
    from cw xs have "chain G wm (y # ys)" by simp
    from force_chain_Cons[OF iA this k1, of fe VNil] obtain b w' s5 where
      f5: "force fe (Suc (Suc k3)) wm VNil sA = ret (Some (MkPair b y w')) s5"
      and c5: "chain G w' ys" and i5: "inv G B s5" and q5: "quiet G sA s5" by blast
    have cy: "plain G y" using flat xs by simp
    have wy: "weight y + 3 \<le> Suc (Suc k3)" using k(4) xs by simp
    from Equals_step_plain[OF cy i5 wy fA[unfolded p_def] f5] obtain s6 where
      st': "Equals fe (Suc (Suc (Suc k3))) (Thunk ja (AppendF ?T ?D)) wm s
        = Equals fe (Suc (Suc k3)) (Thunk ja' (AppendF t' Empty)) w' s6"
      and i6: "inv G B s6" and q56: "quiet G s5 s6" by blast
    have st: "Equals fe k (Thunk ja (AppendF ?T ?D)) wm s
        = Equals fe (Suc (Suc k3)) (Thunk ja' (AppendF t' Empty)) w' s6"
      unfolding k using st' .
    have q6: "quiet G sA s6" using q5 q56 by (rule quiet_trans)
    have t5: "thunkId s6 = ja'" using q6 by (simp add: quiet_def sA_def sP_def)
    have Bj: "B < ja'" using ja(1,2) by (simp add: ja'_def)
    have "unc sD ja'" using iD tD by (intro unc_fresh) (simp_all add: ja'_def)
    then have "unc sA ja'" using ja(2) by (simp add: sA_def sP_def unc_remember ja'_def)
    then have u5: "unc s6 ja'"
      using q6 inv_G_None[OF iA Bj] inv_not_one[OF iA Bj] by (intro unc_quiet[of G sA s6]) simp_all
    have bud5: "thunkId s6 + length ys < 2 ^ 64" using bud xs by (simp add: t5 ja'_def)
    have fl: "\<forall>x \<in> set ys. plain G x" using flat xs by simp
    have fu: "cost ys + 5 \<le> Suc (Suc k3)" using k(4) xs by simp
    from Equals_Append_Empty[OF i6 ct c5 fl Bj _ u5 bud5 fu, where fe = fe] t5
    obtain s' where "Equals fe (Suc (Suc k3)) (Thunk ja' (AppendF t' Empty)) w' s6 = ret True s'"
      by auto
    with st show ?thesis by auto
  qed
qed


lemma unat_pred: "(nm :: uint) \<noteq> 0 \<Longrightarrow> unat nm = Suc (unat (nm - 1))"
  by (simp add: unat_minus_one unat_gt_0)

lemma Equals_Take_Drop:
  assumes "inv G B s" and "chain G wm xs"
    and "chain G lm xs"
    and "chain G (getT s tv) xs0"
    and "tv < length (tvars s)" and "uv < length (uvars s)"
    and "drop (unat (getU s uv)) xs0 = drop (unat nm) xs"
    and "\<forall>x \<in> set xs. plain G x"
    and "B < jt" and "jt \<le> thunkId s" and "unc s jt"
    and "B < jd" and "jd \<le> thunkId s" and "unc s jd"
    and "B < ja" and "ja \<le> thunkId s" and "unc s ja"
    and "jt \<noteq> ja" and "jd \<noteq> ja" and "jd \<noteq> jt"
    and "thunkId s + 2 * length xs + 2 < 2 ^ 64"
    and "length xs0 + cost xs + 8 \<le> k"
  shows "\<exists>s'. Equals fe k (Thunk ja (AppendF (Thunk jt (TakeF lm nm)) (Thunk jd (DropF tv uv)))) wm s
             = ret True s'"
  using assms
proof (induction xs arbitrary: wm lm nm jt ja s k)
  case Nil
  show ?case by (rule Equals_Take_exhausted[OF Nil.prems]) simp
next
  case (Cons x xs')
  note I = Cons.prems(1) and cw = Cons.prems(2) and cm = Cons.prems(3) and c0 = Cons.prems(4)
    and rng = Cons.prems(5,6) and rel = Cons.prems(7) and flat = Cons.prems(8)
    and jt = Cons.prems(9,10,11) and jd = Cons.prems(12,13,14) and ja = Cons.prems(15,16,17)
    and ne = Cons.prems(18,19,20) and bud = Cons.prems(21) and fuel = Cons.prems(22)
  show ?case
  proof (cases "nm = 0")
    case True
    show ?thesis by (rule Equals_Take_exhausted[OF Cons.prems]) (simp add: True)
  next
    case False
    define k3 where "k3 = k - 3"
    with fuel have k: "k = Suc (Suc (Suc k3))" "4 \<le> k3" by simp_all
    let ?T = "Thunk jt (TakeF lm nm)"
    let ?D = "Thunk jd (DropF tv uv)"
    define jt' where "jt' = thunkId s + 1"
    define ja' where "ja' = thunkId s + 2"
    define s0 where "s0 = s\<lparr>evals := ja # evals s\<rparr>"
    have i0: "inv G B s0" using I by (simp add: s0_def)
    have ffA: "force fe (Suc (Suc k3)) (Thunk ja (AppendF ?T ?D)) VNil s =
       bnd (call fe (Suc k3) (AppendF ?T ?D) VNil s0) (\<lambda>r s'. ret r (remember (memo s) ja r s'))"
      unfolding s0_def by (rule force_fresh_unc[OF ja(3)])
    have b0: "thunkId s0 + 1 < 2 ^ 64" using bud by (simp add: s0_def)
    have j0: "jt \<le> thunkId s0" "unc s0 jt" using jt by (simp_all add: s0_def)
    from force_Take[OF i0 cm jt(1) j0 b0 k(2), where fe = fe and n = nm and c = VNil] False
    obtain sT a l' where iT: "inv G B sT" and fT: "frame G {jt} s0 sT"
      and rT: "force fe k3 ?T VNil s0
                 = ret (Some (MkPair a x (Thunk jt' (TakeF l' (nm - 1))))) sT"
      and cl: "chain G l' xs'" and tT: "thunkId sT = jt'"
      by (auto simp: s0_def jt'_def)
    let ?T' = "Thunk jt' (TakeF l' (nm - 1))"
    define p where "p = Some (MkPair (nextPair sT) x (Thunk ja' (AppendF ?T' ?D)))"
    define sP where "sP = sT\<lparr>thunkId := ja', nextPair := nextPair sT + 1\<rparr>"
    define sA where "sA = remember (memo s) ja p sP"
    have ap: "Append ?T' ?D sT = (Thunk ja' (AppendF ?T' ?D), sT\<lparr>thunkId := ja'\<rparr>)"
      using bud tT by (simp add: Append_def nextId_nowrap ja'_def jt'_def)
    have "call fe (Suc k3) (AppendF ?T ?D) VNil s0 = ret p sP"
      using rT ap by (simp add: newPair_def p_def sP_def del: force.simps)
    then have fA: "force fe (Suc (Suc k3)) (Thunk ja (AppendF ?T ?D)) VNil s = ret p sA"
      unfolding ffA by (simp add: sA_def del: force.simps call.simps)
    have iP: "inv G B sP" using iT tT by (simp add: sP_def ja'_def jt'_def inv_alloc)
    have iA: "inv G B sA" unfolding sA_def using iP ja(1,2)
      by (intro inv_remember) (simp_all add: sP_def ja'_def)
    have k1: "2 \<le> Suc (Suc k3)" by simp
    from force_chain_Cons[OF iA cw k1, of fe VNil] obtain b w' s5 where
      f5: "force fe (Suc (Suc k3)) wm VNil sA = ret (Some (MkPair b x w')) s5"
      and c5: "chain G w' xs'" and i5: "inv G B s5" and q5: "quiet G sA s5" by blast
    have cy: "plain G x" using flat by simp
    have wx: "weight x + 3 \<le> Suc (Suc k3)" using fuel k by simp
    from Equals_step_plain[OF cy i5 wx fA[unfolded p_def] f5] obtain s6 where
      st': "Equals fe (Suc (Suc (Suc k3))) (Thunk ja (AppendF ?T ?D)) wm s
        = Equals fe (Suc (Suc k3)) (Thunk ja' (AppendF ?T' ?D)) w' s6"
      and i6: "inv G B s6" and q56: "quiet G s5 s6" by blast
    have st: "Equals fe k (Thunk ja (AppendF ?T ?D)) wm s
        = Equals fe (Suc (Suc k3)) (Thunk ja' (AppendF ?T' ?D)) w' s6"
      unfolding k using st' .
    have q6: "quiet G sA s6" using q5 q56 by (rule quiet_trans)
    have t5: "thunkId s6 = ja'" using q6 by (simp add: quiet_def sA_def sP_def)
    have v5: "tvars s6 = tvars s" "uvars s6 = uvars s"
      using q6 fT by (simp_all add: quiet_def frame_def sA_def sP_def s0_def)
    have g5: "getT s6 tv = getT s tv" "getU s6 uv = getU s uv"
      by (simp_all add: getT_def getU_def v5)
    have Bt: "B < jt'" and Ba: "B < ja'" using jt(1,2) by (simp_all add: jt'_def ja'_def)
    have Gn: "G jt' = None" "jt' \<noteq> 1" "G ja' = None" "ja' \<noteq> 1" "G jd = None" "jd \<noteq> 1"
      using inv_G_None[OF I Bt] inv_not_one[OF I Bt] inv_G_None[OF I Ba] inv_not_one[OF I Ba]
        inv_G_None[OF I jd(1)] inv_not_one[OF I jd(1)] by simp_all
    have nj: "jt' \<noteq> jt" "jt' \<noteq> ja" "ja' \<noteq> ja" "jd \<noteq> ja'" "jd \<noteq> jt'" "jt' \<noteq> ja'"
      using jt(2) ja(2) jd(2) by (simp_all add: jt'_def ja'_def)
    have "unc s0 jt'" using I by (simp add: s0_def unc_fresh jt'_def)
    then have "unc sT jt'" using nj Gn by (intro unc_frame[OF fT]) simp_all
    then have "unc sA jt'" using nj by (simp add: sA_def sP_def unc_remember)
    then have ut: "unc s6 jt'" using q6 Gn by (intro unc_quiet[of G sA s6]) simp_all
    have "unc s0 jd" using jd(3) by (simp add: s0_def)
    then have "unc sT jd" using ne Gn by (intro unc_frame[OF fT]) simp_all
    then have "unc sA jd" using ne by (simp add: sA_def sP_def unc_remember)
    then have ud: "unc s6 jd" using q6 Gn by (intro unc_quiet[of G sA s6]) simp_all
    have "unc sT ja'" using iT tT by (intro unc_fresh) (simp_all add: ja'_def jt'_def)
    then have "unc sA ja'" using nj by (simp add: sA_def sP_def unc_remember)
    then have ua: "unc s6 ja'" using q6 Gn by (intro unc_quiet[of G sA s6]) simp_all
    have c0': "chain G (getT s6 tv) xs0" using c0 g5 by simp
    have rng': "tv < length (tvars s6)" "uv < length (uvars s6)" using rng v5 by simp_all
    have rel': "drop (unat (getU s6 uv)) xs0 = drop (unat (nm - 1)) xs'"
      using rel unat_pred[OF False] g5 by simp
    have fl: "\<forall>x \<in> set xs'. plain G x" using flat by simp
    have le: "jt' \<le> thunkId s6" "jd \<le> thunkId s6" "ja' \<le> thunkId s6"
      using jd(2) by (simp_all add: t5 jt'_def ja'_def)
    have bud': "thunkId s6 + 2 * length xs' + 2 < 2 ^ 64" using bud by (simp add: t5 ja'_def)
    have fuel': "length xs0 + cost xs' + 8 \<le> Suc (Suc k3)" using fuel k by simp
    from Cons.IH[OF i6 c5 cl c0' rng' rel' fl Bt le(1) ut jd(1) le(2) ud Ba le(3) ua
        nj(6) nj(4) nj(5) bud' fuel']
    show ?thesis unfolding st .
  qed
qed

lemma nested_eq:
  "nested = Thunk 6 (LinkF (VThunk list123) (Thunk 5 (LinkF (VInt KInt 7) Empty)))"
  "st_nested = init_st\<lparr>thunkId := 6\<rparr>"
  by (simp_all add: nested_def st_nested_def list123_eq Link_def nextId_def init_st_def)

lemma inv_nested: "inv cells_nested 6 st_nested"
  by (auto simp: inv_def nested_eq cells_nested_def cells123_def init_st_def)

lemma chain_nested: "chain cells_nested nested [VThunk list123, VInt KInt 7]"
  by (simp add: nested_eq cells_nested_def)

lemma plain_nested: "plain cells_nested (VThunk list123)" "plain cells_nested (VInt KInt 7)"
  by (simp_all add: list123_eq cells_nested_def cells123_def)

section \<open>The claims about finite lists\<close>

text \<open>
  C7. Let \<open>l\<close> be a finite list with the elements \<open>xs\<close>, fewer than \<open>2 ^ 63\<close> of them (so
  that its length is an \<^verbatim>\<open>int\<close>), in a state that fits its cells and has an id left for
  every thunk the calls build. Then for every \<^verbatim>\<open>uint\<close> \<open>n\<close>, with memoization on or off,
  \<^verbatim>\<open>l.Take(n).Length()\<close> returns \<open>a\<close>, \<^verbatim>\<open>l.Length()\<close> evaluated after it returns \<open>b\<close>, \<open>b\<close>
  is the number of elements, and \<open>a = min(n, b)\<close>.
\<close>

theorem Take_Length_min:
  assumes "inv G B s" and "chain G l xs" and "length xs < 2 ^ 63"
    and "thunkId s + length xs + 1 < 2 ^ 64" and "length xs + 5 \<le> k"
  shows "\<exists>t s1 a s2 b s3.
           Take l n s = (t, s1) \<and> Length fe k t s1 = ret a s2 \<and> Length fe k l s2 = ret b s3
           \<and> sint b = int (length xs) \<and> sint a = min (int (unat n)) (sint b)"
proof -
  let ?j = "thunkId s + 1"
  let ?s1 = "s\<lparr>thunkId := ?j\<rparr>"
  have tk: "Take l n s = (Thunk ?j (TakeF l n), ?s1)"
    using assms(4) by (simp add: Take_def nextId_nowrap)
  have i1: "inv G B ?s1" using assms(1) by (simp add: inv_alloc)
  have "B < ?j" using assms(1) by (simp add: inv_def)
  moreover have "memo ?s1 \<longrightarrow> memoTable ?s1 ?j = None"
    using inv_fresh_None[OF assms(1), of ?j] by simp
  ultimately obtain s2 where
    a: "Length_loop fe k (Thunk ?j (TakeF l n)) 0 ?s1 = ret (0 + of_nat (min (unat n) (length xs))) s2"
    and i2: "inv G B s2"
    using Length_Take[OF i1 assms(2), of ?j k fe n 0] assms(4,5) by auto
  from Length_chain[OF i2 assms(2), of k fe 0] assms(5) obtain s3 where
    b: "Length_loop fe k l 0 s2 = ret (0 + of_nat (length xs)) s3" by auto
  have "min (unat n) (length xs) < 2 ^ 63" using assms(3) by simp
  then have "sint (of_nat (min (unat n) (length xs)) :: 64 word) = min (int (unat n)) (int (length xs))"
    by (simp only: sint_of_nat_small of_nat_min)
  with tk a b assms(3) show ?thesis by (simp add: Length_def sint_of_nat_small)
qed

theorem Take_Length_min_witness:
  "inv cells123 4 st123 \<and> chain cells123 list123 [VInt KInt 1, VInt KInt 2, VInt KInt 3]
   \<and> length [VInt KInt 1, VInt KInt 2, VInt KInt 3] < 2 ^ 63
   \<and> thunkId st123 + length [VInt KInt 1, VInt KInt 2, VInt KInt 3] + 1 < 2 ^ 64
   \<and> length [VInt KInt 1, VInt KInt 2, VInt KInt 3] + 5 \<le> 8
   \<and> (\<exists>t s1 a s2 b s3.
         Take list123 2 st123 = (t, s1) \<and> Length test_fe 8 t s1 = ret a s2
         \<and> Length test_fe 8 list123 s2 = ret b s3
         \<and> sint b = int (length [VInt KInt 1, VInt KInt 2, VInt KInt 3])
         \<and> sint a = min (int (unat (2 :: uint))) (sint b))"
proof -
  have h3: "length [VInt KInt 1, VInt KInt 2, VInt KInt 3] < 2 ^ 63" by simp
  have h4: "thunkId st123 + length [VInt KInt 1, VInt KInt 2, VInt KInt 3] + 1 < 2 ^ 64"
    by (simp add: list123_eq init_st_def)
  have h5: "length [VInt KInt 1, VInt KInt 2, VInt KInt 3] + 5 \<le> 8" by simp
  from Take_Length_min[OF inv123 chain123 h3 h4 h5, where fe = test_fe and n = 2] inv123 chain123 h3 h4 h5
  show ?thesis by blast
qed

text \<open>
  C6. \<^verbatim>\<open>ReduceN(f, acc, ts...)\<close> on one or more finite lists, with enough fuel, returns
  the left fold of \<open>f\<close> from \<open>acc\<close> over the tuples of heads taken from all lists in
  lockstep, up to the first step at which one of the lists is exhausted (\<open>rows\<close>); it
  panics where \<open>f\<close> does. And on \<^verbatim>\<open>L(7, 8, 9)\<close>, \<^verbatim>\<open>L(4, 5, 6)\<close> and the infinite stream
  \<^verbatim>\<open>prog = integersFromN(1)\<close> of \<^verbatim>\<open>TestReduceN\<close>, of which it forces the first three
  cells, \<^verbatim>\<open>ReduceN(totalSum, 0, ...)\<close> returns 45.
\<close>

theorem ReduceN_fold:
  "(inv G B s \<longrightarrow> list_all2 (chain G) ts xss \<longrightarrow> ts \<noteq> [] \<longrightarrow> length (rows xss) + 3 \<le> k \<longrightarrow>
      outcome (ReduceN fe k f acc ts s) = Some (foldE f acc (rows xss)))
   \<and> (let (prog, s1) = integersFromN 1 init_st;
           (a, s2) = L [VInt KInt 7, VInt KInt 8, VInt KInt 9] s1;
           (b, s3) = L [VInt KInt 4, VInt KInt 5, VInt KInt 6] s2
       in outcome (ReduceN test_fe 8 totalSum (VInt KInt 0) [a, b, prog] s3)
          = Some (Inr (VInt KInt 45)))"
proof (rule conjI)
  show "inv G B s \<longrightarrow> list_all2 (chain G) ts xss \<longrightarrow> ts \<noteq> [] \<longrightarrow> length (rows xss) + 3 \<le> k \<longrightarrow>
      outcome (ReduceN fe k f acc ts s) = Some (foldE f acc (rows xss))"
    using ReduceN_chains by blast
  show "(let (prog, s1) = integersFromN 1 init_st;
           (a, s2) = L [VInt KInt 7, VInt KInt 8, VInt KInt 9] s1;
           (b, s3) = L [VInt KInt 4, VInt KInt 5, VInt KInt 6] s2
       in outcome (ReduceN test_fe 8 totalSum (VInt KInt 0) [a, b, prog] s3)
          = Some (Inr (VInt KInt 45)))"
    by (simp add: run_defs cong: bnd_weak_cong)
qed

theorem ReduceN_fold_witness:
  "inv cells123 4 st123
   \<and> list_all2 (chain cells123) [list123, list123]
        [[VInt KInt 1, VInt KInt 2, VInt KInt 3], [VInt KInt 1, VInt KInt 2, VInt KInt 3]]
   \<and> [list123, list123] \<noteq> []
   \<and> length (rows [[VInt KInt 1, VInt KInt 2, VInt KInt 3],
                     [VInt KInt 1, VInt KInt 2, VInt KInt 3]]) + 3 \<le> 6
   \<and> outcome (ReduceN test_fe 6 totalSum (VInt KInt 0) [list123, list123] st123)
       = Some (foldE totalSum (VInt KInt 0)
                 (rows [[VInt KInt 1, VInt KInt 2, VInt KInt 3],
                        [VInt KInt 1, VInt KInt 2, VInt KInt 3]]))
   \<and> foldE totalSum (VInt KInt 0)
         (rows [[VInt KInt 1, VInt KInt 2, VInt KInt 3], [VInt KInt 1, VInt KInt 2, VInt KInt 3]])
       = Inr (VInt KInt 12)"
proof -
  have r: "rows [[VInt KInt 1, VInt KInt 2, VInt KInt 3], [VInt KInt 1, VInt KInt 2, VInt KInt 3]]
      = [[VInt KInt 1, VInt KInt 1], [VInt KInt 2, VInt KInt 2], [VInt KInt 3, VInt KInt 3]]"
    by (simp add: rows_step rows_stop)
  have h2: "list_all2 (chain cells123) [list123, list123]
        [[VInt KInt 1, VInt KInt 2, VInt KInt 3], [VInt KInt 1, VInt KInt 2, VInt KInt 3]]"
    using chain123 by simp
  have h4: "length (rows [[VInt KInt 1, VInt KInt 2, VInt KInt 3],
                     [VInt KInt 1, VInt KInt 2, VInt KInt 3]]) + 3 \<le> 6"
    by (simp add: r)
  have v: "foldE totalSum (VInt KInt 0)
         (rows [[VInt KInt 1, VInt KInt 2, VInt KInt 3], [VInt KInt 1, VInt KInt 2, VInt KInt 3]])
       = Inr (VInt KInt 12)"
    by (simp add: r wrap64_def)
  from ReduceN_fold[of cells123 4 st123 "[list123, list123]"
      "[[VInt KInt 1, VInt KInt 2, VInt KInt 3], [VInt KInt 1, VInt KInt 2, VInt KInt 3]]"
      6 test_fe totalSum "VInt KInt 0"] inv123 h2 h4 v
  show ?thesis by blast
qed

text \<open>
  C5. Let \<open>ts\<close> be one or more finite lists with the elements \<open>xss\<close>, and \<open>g\<close> the function
  of a \<^verbatim>\<open>MapN\<close>: a caller's function that returns on every tuple it is given, or the
  function of \<^verbatim>\<open>ZipN\<close>. Then the slice of \<^verbatim>\<open>MapN(g, ts...)\<close> has exactly as many elements
  as the shortest input, and its element at position \<open>i\<close> is what \<open>g\<close> returns on the
  elements at position \<open>i\<close> of all inputs (for \<^verbatim>\<open>ZipN\<close>: a list of them). Memoization may
  be on or off; the state fits the cells of the lists and has ids left for the thunks
  built on the way. The instance \<^verbatim>\<open>ZipN(List(1, 2, 3), List(4, 5)).ToSlice()\<close> has
  length 2.
\<close>

theorem MapN_shortest:
  assumes "inv G B s" and "list_all2 (chain G) ts xss" and "ts \<noteq> []"
    and "thunkId s + (Min (length ` set xss) + 1) * (length ts + 1) < 2 ^ 64"
    and "Min (length ` set xss) + 5 \<le> k"
    and "\<forall>r \<in> set (rows xss). fn_total fe g r"
  shows "\<exists>m s1 vs s2. MapN g ts s = (m, s1) \<and> ToSlice fe k m s1 = ret vs s2
           \<and> length vs = Min (length ` set xss)
           \<and> (\<forall>i < length vs. fn_result fe g (map (\<lambda>xs. xs ! i) xss) (vs ! i))"
proof -
  from assms(2,3) have ne: "xss \<noteq> []" by auto
  note lr = length_rows[OF ne]
  let ?j = "thunkId s + 1"
  let ?s1 = "s\<lparr>thunkId := ?j\<rparr>"
  have "thunkId s + 1 < 2 ^ 64" using assms(4) by simp
  then have mp: "MapN g ts s = (Thunk ?j (MapNF g ts), ?s1)"
    by (simp add: MapN_def nextId_nowrap)
  have i1: "inv G B ?s1" using assms(1) by (simp add: inv_alloc)
  have Bj: "B < ?j" using assms(1) by (simp add: inv_def)
  have fresh: "memo ?s1 \<longrightarrow> memoTable ?s1 ?j = None"
    using inv_fresh_None[OF assms(1), of ?j] by simp
  have bud: "thunkId ?s1 + length (rows xss) * (length ts + 1) < 2 ^ 64"
    using assms(4) by (simp add: lr)
  have fuel: "length (rows xss) + 5 \<le> k" using assms(5) by (simp add: lr)
  from ToSlice_MapN[OF i1 assms(2,3) Bj _ fresh bud fuel assms(6)]
  obtain vs s2 where ts: "ToSlice fe k (Thunk ?j (MapNF g ts)) ?s1 = ret vs s2"
    and la: "list_all2 (fn_result fe g) (rows xss) vs" by auto
  from la have len: "length vs = length (rows xss)" by (simp add: list_all2_lengthD)
  have "fn_result fe g (map (\<lambda>xs. xs ! i) xss) (vs ! i)" if "i < length vs" for i
    using that la len rows_nth[of i xss] by (auto dest: list_all2_nthD)
  with mp ts len lr show ?thesis by auto
qed

theorem MapN_shortest_witness:
  "inv cells45 6 st45
   \<and> list_all2 (chain cells45) [list123, list45]
        [[VInt KInt 1, VInt KInt 2, VInt KInt 3], [VInt KInt 4, VInt KInt 5]]
   \<and> [list123, list45] \<noteq> []
   \<and> thunkId st45 + (Min (length ` set
          [[VInt KInt 1, VInt KInt 2, VInt KInt 3], [VInt KInt 4, VInt KInt 5]]) + 1)
          * (length [list123, list45] + 1) < 2 ^ 64
   \<and> Min (length ` set [[VInt KInt 1, VInt KInt 2, VInt KInt 3], [VInt KInt 4, VInt KInt 5]])
        + 5 \<le> 7
   \<and> rows [[VInt KInt 1, VInt KInt 2, VInt KInt 3], [VInt KInt 4, VInt KInt 5]]
       = [[VInt KInt 1, VInt KInt 4], [VInt KInt 2, VInt KInt 5]]
   \<and> fn_total test_fe SliceToListFn [VInt KInt 1, VInt KInt 4]
   \<and> fn_total test_fe SliceToListFn [VInt KInt 2, VInt KInt 5]
   \<and> (\<exists>m s1 vs s2. ZipN [list123, list45] st45 = (m, s1) \<and> ToSlice test_fe 7 m s1 = ret vs s2
         \<and> length vs = 2
         \<and> fn_result test_fe SliceToListFn [VInt KInt 1, VInt KInt 4] (vs ! 0)
         \<and> fn_result test_fe SliceToListFn [VInt KInt 2, VInt KInt 5] (vs ! 1))"
proof -
  have h2: "list_all2 (chain cells45) [list123, list45]
        [[VInt KInt 1, VInt KInt 2, VInt KInt 3], [VInt KInt 4, VInt KInt 5]]"
    using chain45 by simp
  have h3: "[list123, list45] \<noteq> []" by simp
  have mn: "Min (length ` set [[VInt KInt 1, VInt KInt 2, VInt KInt 3], [VInt KInt 4, VInt KInt 5]]) = 2"
    by simp
  have h4: "thunkId st45 + (Min (length ` set
          [[VInt KInt 1, VInt KInt 2, VInt KInt 3], [VInt KInt 4, VInt KInt 5]]) + 1)
          * (length [list123, list45] + 1) < 2 ^ 64"
    unfolding mn by (simp add: list45_eq init_st_def)
  have h5: "Min (length ` set [[VInt KInt 1, VInt KInt 2, VInt KInt 3], [VInt KInt 4, VInt KInt 5]])
        + 5 \<le> 7"
    unfolding mn by simp
  have r: "rows [[VInt KInt 1, VInt KInt 2, VInt KInt 3], [VInt KInt 4, VInt KInt 5]]
       = [[VInt KInt 1, VInt KInt 4], [VInt KInt 2, VInt KInt 5]]"
    by (simp add: rows_step rows_stop)
  have t: "fn_total test_fe SliceToListFn [VInt KInt 1, VInt KInt 4]"
    "fn_total test_fe SliceToListFn [VInt KInt 2, VInt KInt 5]"
    by (simp_all add: fn_total_def)
  have h6: "\<forall>r \<in> set (rows [[VInt KInt 1, VInt KInt 2, VInt KInt 3], [VInt KInt 4, VInt KInt 5]]).
         fn_total test_fe SliceToListFn r"
    unfolding r using t by simp
  from MapN_shortest[OF inv45 h2 h3 h4 h5 h6]
  obtain m s1 vs s2 where a: "MapN SliceToListFn [list123, list45] st45 = (m, s1)"
    and b: "ToSlice test_fe 7 m s1 = ret vs s2"
    and c: "length vs = Min (length ` set
          [[VInt KInt 1, VInt KInt 2, VInt KInt 3], [VInt KInt 4, VInt KInt 5]])"
    and d: "\<forall>i < length vs. fn_result test_fe SliceToListFn
               (map (\<lambda>xs. xs ! i)
                  [[VInt KInt 1, VInt KInt 2, VInt KInt 3], [VInt KInt 4, VInt KInt 5]]) (vs ! i)"
    by blast
  from c have c': "length vs = 2" unfolding mn .
  from d[rule_format, of 0] c'
  have d0: "fn_result test_fe SliceToListFn [VInt KInt 1, VInt KInt 4] (vs ! 0)" by simp
  from d[rule_format, of 1] c'
  have d1: "fn_result test_fe SliceToListFn [VInt KInt 2, VInt KInt 5] (vs ! 1)" by simp
  have "\<exists>m s1 vs s2. ZipN [list123, list45] st45 = (m, s1) \<and> ToSlice test_fe 7 m s1 = ret vs s2
         \<and> length vs = 2
         \<and> fn_result test_fe SliceToListFn [VInt KInt 1, VInt KInt 4] (vs ! 0)
         \<and> fn_result test_fe SliceToListFn [VInt KInt 2, VInt KInt 5] (vs ! 1)"
    unfolding ZipN_def using a b c' d0 d1 by blast
  with inv45 h2 h3 h4 h5 r t show ?thesis by blast
qed

text \<open>
  C8 (amended). Let \<open>l\<close> be a finite list with the elements \<open>xs\<close>, each of them plain: not a
  slice, not a NaN, and if a list, then a finite list of plain elements (so an element
  is nil, an integer, a string, a floating-point number other than NaN, or such a
  list). The state fits the cells
  of \<open>l\<close> and of the lists it holds, and has ids left for the thunks built on the way.
  Then for every \<^verbatim>\<open>uint\<close> \<open>n\<close>, with memoization on or off,
  \<^verbatim>\<open>l.Take(n).Append(l.Drop(n)).Equals(l)\<close> returns \<^verbatim>\<open>true\<close>.
\<close>

theorem Take_Append_Drop_Equals:
  assumes "inv G B s" and "chain G l xs" and "\<forall>x \<in> set xs. plain G x"
    and "thunkId s + 2 * length xs + 5 < 2 ^ 64" and "length xs + cost xs + 8 \<le> k"
  shows "\<exists>t s1 d s2 a s3 s4.
           Take l n s = (t, s1) \<and> Drop l n s1 = (d, s2) \<and> Append t d s2 = (a, s3)
           \<and> Equals fe k a l s3 = ret True s4"
proof -
  let ?jt = "thunkId s + 1" and ?jd = "thunkId s + 2" and ?ja = "thunkId s + 3"
  let ?tv = "length (tvars s)" and ?uv = "length (uvars s)"
  let ?s1 = "s\<lparr>thunkId := ?jt\<rparr>"
  let ?s2 = "s\<lparr>thunkId := ?jt, tvars := tvars s @ [l], uvars := uvars s @ [n], thunkId := ?jd\<rparr>"
  let ?s3 = "?s2\<lparr>thunkId := ?ja\<rparr>"
  have tk: "Take l n s = (Thunk ?jt (TakeF l n), ?s1)"
    using assms(4) by (simp add: Take_def nextId_nowrap)
  have dr: "Drop l n ?s1 = (Thunk ?jd (DropF ?tv ?uv), ?s2)"
    using assms(4) by (simp add: Drop_def nextId_nowrap Let_def)
  have ap: "Append (Thunk ?jt (TakeF l n)) (Thunk ?jd (DropF ?tv ?uv)) ?s2
       = (Thunk ?ja (AppendF (Thunk ?jt (TakeF l n)) (Thunk ?jd (DropF ?tv ?uv))), ?s3)"
    using assms(4) by (simp add: Append_def nextId_nowrap)
  have B: "B \<le> thunkId s" using assms(1) by (simp add: inv_def)
  have i3: "inv G B ?s3" using assms(1) by (simp add: inv_alloc)
  have g: "getT ?s3 ?tv = l" "getU ?s3 ?uv = n" by (simp_all add: getT_def getU_def)
  have c0: "chain G (getT ?s3 ?tv) xs" using assms(2) g by simp
  have rel: "drop (unat (getU ?s3 ?uv)) xs = drop (unat n) xs" using g by simp
  have u: "unc ?s3 ?jt" "unc ?s3 ?jd" "unc ?s3 ?ja"
    using assms(1) by (simp_all add: unc_fresh)
  have bud: "thunkId ?s3 + 2 * length xs + 2 < 2 ^ 64" using assms(4) by simp
  have fuel: "length xs + cost xs + 8 \<le> k" using assms(5) by simp
  from Equals_Take_Drop[OF i3 assms(2) assms(2) c0 _ _ rel assms(3) _ _ u(1) _ _ u(2) _ _ u(3)
      _ _ _ bud fuel, where fe = fe] B
  obtain s4 where "Equals fe k (Thunk ?ja (AppendF (Thunk ?jt (TakeF l n)) (Thunk ?jd (DropF ?tv ?uv)))) l ?s3
      = ret True s4" by auto
  with tk dr ap show ?thesis by simp
qed

theorem Take_Append_Drop_Equals_witness:
  "inv cells_nested 6 st_nested \<and> chain cells_nested nested [VThunk list123, VInt KInt 7]
   \<and> plain cells_nested (VThunk list123) \<and> plain cells_nested (VInt KInt 7)
   \<and> thunkId st_nested + 2 * length [VThunk list123, VInt KInt 7] + 5 < 2 ^ 64
   \<and> length [VThunk list123, VInt KInt 7] + cost [VThunk list123, VInt KInt 7] + 8 \<le> 15
   \<and> (\<exists>t s1 d s2 a s3 s4.
         Take nested 1 st_nested = (t, s1) \<and> Drop nested 1 s1 = (d, s2)
         \<and> Append t d s2 = (a, s3) \<and> Equals test_fe 15 a nested s3 = ret True s4)"
proof -
  have h3: "\<forall>x \<in> set [VThunk list123, VInt KInt 7]. plain cells_nested x"
    using plain_nested by simp
  have h4: "thunkId st_nested + 2 * length [VThunk list123, VInt KInt 7] + 5 < 2 ^ 64"
    by (simp add: nested_eq init_st_def)
  have h5: "length [VThunk list123, VInt KInt 7] + cost [VThunk list123, VInt KInt 7] + 8 \<le> 15"
    by (simp add: list123_eq)
  from Take_Append_Drop_Equals[OF inv_nested chain_nested h3 h4 h5, where fe = test_fe and n = 1]
    inv_nested chain_nested plain_nested h4 h5
  show ?thesis by blast
qed

text \<open>
  C8 as it is written, for every finite list, does not hold. On the list
  \<^verbatim>\<open>L([]int{1, 2})\<close>, whose one element is a slice, and \<open>n = 1\<close>, \<^verbatim>\<open>Equals\<close> compares the
  two heads with \<^verbatim>\<open>!=\<close>, both of the same slice type, and panics. On the list
  \<^verbatim>\<open>L(math.NaN())\<close> the two heads are unequal, and \<^verbatim>\<open>Equals\<close> returns \<^verbatim>\<open>false\<close>.
\<close>

theorem Take_Append_Drop_slice_panics_NaN_false:
  "(let (l, s0) = L [VSlice (IntT KInt) [VInt KInt 1, VInt KInt 2]] init_st;
        (t, s1) = Take l 1 s0;
        (d, s2) = Drop l 1 s1;
        (a, s3) = Append t d s2
    in outcome (Equals test_fe 12 a l s3) = Some (Inl Uncomparable))
   \<and> (let (l, s0) = L [VNaN KFloat64] init_st;
        (t, s1) = Take l 1 s0;
        (d, s2) = Drop l 1 s1;
        (a, s3) = Append t d s2
    in outcome (Equals test_fe 12 a l s3) = Some (Inr False))"
  by (simp add: run_defs cong: bnd_weak_cong)

end
